theory Spec2Isabelle
  imports Main "HOL-Library.Multiset"
begin

section \<open>Panics, iterators and sequences (collections/sequences.go)\<close>

text \<open>
  A Go panic is a value of the sum type \<open>panic + 'a\<close> (\<open>Inl\<close> the panic). \<open>Panic msg\<close> is
  an explicit \<^verbatim>\<open>panic(msg)\<close> of the library, \<open>IndexOutOfRange\<close> the run-time panic of an
  index expression outside the slice, \<open>UnhashableKey\<close> the run-time panic of a map index
  expression whose key cannot be hashed, \<open>emptyError\<close> the library's error value of that
  name.
  The element type \<^verbatim>\<open>T\<close> (\<^verbatim>\<open>interface{}\<close>) is a type variable; callbacks (selectors,
  comparers, aggregators) are total HOL functions, so a panic raised inside a callback is
  outside the model, except for the action of \<^verbatim>\<open>ParallelForEach\<close>, whose panic the code
  recovers.
\<close>

datatype panic = Panic string | IndexOutOfRange | UnhashableKey | emptyError

text \<open>
  \<^verbatim>\<open>type IteratorFunc func() (T, bool)\<close> is a closure over variables it updates. The
  model is the closure as a value: calling it gives a panic, or \<open>None\<close> for
  \<^verbatim>\<open>(nil, false)\<close>, or \<open>Some (item, g)\<close> for \<^verbatim>\<open>(item, true)\<close> where \<open>g\<close> is the closure with
  its captured variables as the call left them. A closure that has answered
  \<^verbatim>\<open>(nil, false)\<close> answers the same when called again (every closure of the library does),
  and every closure of this type is finite.
\<close>

datatype 'a IteratorFunc = IteratorFunc (call: "panic + ('a \<times> 'a IteratorFunc) option")

text \<open>
  The two iterator structs. \<open>genericArrayIterator array index\<close> is
  \<^verbatim>\<open>genericArrayIterator{array, index}\<close>; the generated \<^verbatim>\<open>tIterator\<close>,
  \<^verbatim>\<open>int32Iterator\<close>, \<^verbatim>\<open>uint16Iterator\<close> have the same fields and the same two methods line
  by line. \<open>functionIterator f cur valid\<close> is \<^verbatim>\<open>functionIterator{f, cur, valid}\<close>, with
  \<open>cur = None\<close> for the \<^verbatim>\<open>nil\<close> stored together with \<^verbatim>\<open>valid = false\<close>.
\<close>

datatype 'a Iterator =
    genericArrayIterator "'a list" int
  | functionIterator "'a IteratorFunc" "'a option" bool

datatype 'a Sequence =
    genericArraySequence "'a list"
  | functionSequence "unit \<Rightarrow> 'a IteratorFunc"

fun Sequence_Iterator :: "'a Sequence \<Rightarrow> 'a Iterator" where
  "Sequence_Iterator (genericArraySequence array) = genericArrayIterator array (- 1)"
| "Sequence_Iterator (functionSequence f) = functionIterator (f ()) None False"

fun Current :: "'a Iterator \<Rightarrow> panic + 'a" where
  "Current (genericArrayIterator array index) =
     (if 0 \<le> index \<and> index < int (length array) then Inr (array ! nat index)
      else Inl IndexOutOfRange)"
| "Current (functionIterator f cur valid) =
     (if \<not> valid then Inl (Panic ''Current called outside sequence'')
      else case cur of
             Some item \<Rightarrow> Inr item
           | None \<Rightarrow> Inl (Panic ''Current called outside sequence''))"

fun Next :: "'a Iterator \<Rightarrow> panic + (bool \<times> 'a Iterator)" where
  "Next (genericArrayIterator array index) =
     (let ni = index + 1
      in if ni < int (length array) then Inr (True, genericArrayIterator array ni)
         else Inr (False, genericArrayIterator array index))"
| "Next (functionIterator f cur valid) =
     (case call f of
        Inl p \<Rightarrow> Inl p
      | Inr None \<Rightarrow> Inr (False, functionIterator f None False)
      | Inr (Some (item, f')) \<Rightarrow> Inr (True, functionIterator f' (Some item) True))"

text \<open>
  \<^verbatim>\<open>mapIterator{i *reflect.MapIter}\<close>. \<^verbatim>\<open>reflect.MapIter\<close> belongs to the Go standard
  library, so its three methods are parameters: \<open>Key\<close>, \<open>Value\<close> and \<open>MapIter_Next\<close> on
  an iterator state \<open>'m\<close>. \<^verbatim>\<open>Current\<close> is
  \<^verbatim>\<open>Pair{i.i.Key().Interface(), i.i.Value().Interface()}\<close>, the key first, and \<^verbatim>\<open>Next\<close> is
  \<^verbatim>\<open>i.i.Next()\<close>; the iterator of a map-backed sequence starts from the state that
  \<^verbatim>\<open>MapRange()\<close> returns.
\<close>

datatype ('k, 'v) Pair = Pair 'k 'v

definition mapIterator_Current ::
  "('m \<Rightarrow> panic + 'k) \<Rightarrow> ('m \<Rightarrow> panic + 'v) \<Rightarrow> 'm \<Rightarrow> panic + ('k, 'v) Pair" where
  "mapIterator_Current Key Value i =
     (case Key i of
        Inl p \<Rightarrow> Inl p
      | Inr k \<Rightarrow> (case Value i of Inl p \<Rightarrow> Inl p | Inr v \<Rightarrow> Inr (Pair k v)))"

definition mapIterator_Next :: "('m \<Rightarrow> panic + (bool \<times> 'm)) \<Rightarrow> 'm \<Rightarrow> panic + (bool \<times> 'm)" where
  "mapIterator_Next MapIter_Next i = MapIter_Next i"

text \<open>
  How many more items an iterator can still give: the measure under which every loop
  over \<open>Next\<close> ends.
\<close>

fun remaining_calls :: "'a IteratorFunc \<Rightarrow> nat" where
  "remaining_calls (IteratorFunc (Inl p)) = 0"
| "remaining_calls (IteratorFunc (Inr None)) = 0"
| "remaining_calls (IteratorFunc (Inr (Some (item, g)))) = Suc (remaining_calls g)"

fun remaining :: "'a Iterator \<Rightarrow> nat" where
  "remaining (genericArrayIterator array index) = nat (int (length array) - 1 - index)"
| "remaining (functionIterator f cur valid) = remaining_calls f"

lemma Next_remaining:
  assumes "Next i = Inr (True, i')"
  shows "remaining i' < remaining i"
proof (cases i)
  case (genericArrayIterator array index)
  with assms show ?thesis by (auto simp: Let_def split: if_splits)
next
  case (functionIterator f cur valid)
  with assms show ?thesis by (cases f) (auto split: sum.splits option.splits)
qed

lemma Next_remaining_le:
  assumes "Next i = Inr (more, i')"
  shows "remaining i' \<le> remaining i"
proof (cases i)
  case (genericArrayIterator array index)
  with assms show ?thesis by (auto simp: Let_def split: if_splits)
next
  case (functionIterator f cur valid)
  with assms show ?thesis by (cases f) (auto split: sum.splits option.splits)
qed

text \<open>
  \<^verbatim>\<open>MakeFunctionSequence\<close> and \<^verbatim>\<open>FromSequenceFunction\<close> (a \<^verbatim>\<open>LINQ\<close> is a struct that
  embeds its \<^verbatim>\<open>Sequence\<close> and nothing else, so it is modelled as the sequence).
\<close>

definition MakeFunctionSequence :: "(unit \<Rightarrow> 'a IteratorFunc) \<Rightarrow> 'a Sequence" where
  "MakeFunctionSequence f = functionSequence f"

definition FromSequenceFunction :: "(unit \<Rightarrow> 'a IteratorFunc) \<Rightarrow> 'a Sequence" where
  "FromSequenceFunction f = MakeFunctionSequence f"

text \<open>\<^verbatim>\<open>From\<close> on a slice (\<^verbatim>\<open>FromItems\<close>): the slice-backed sequence.\<close>

definition From :: "'a list \<Rightarrow> 'a Sequence" where
  "From items = genericArraySequence items"

text \<open>
  \<^verbatim>\<open>ToSlice\<close>: \<^verbatim>\<open>for i := s.Iterator(); i.Next(); { items = append(items, i.Current()) }\<close>.
\<close>

function ToSlice_loop :: "'a Iterator \<Rightarrow> 'a list \<Rightarrow> panic + 'a list" where
  "ToSlice_loop i items =
     (case Next i of
        Inl p \<Rightarrow> Inl p
      | Inr (more, i') \<Rightarrow>
          if more then (case Current i' of
                          Inl p \<Rightarrow> Inl p
                        | Inr item \<Rightarrow> ToSlice_loop i' (items @ [item]))
          else Inr items)"
  by pat_completeness auto
termination
  by (relation "measure (\<lambda>(i, items). remaining i)") (auto dest: Next_remaining)

declare ToSlice_loop.simps [simp del]

definition ToSlice :: "'a Sequence \<Rightarrow> panic + 'a list" where
  "ToSlice s = ToSlice_loop (Sequence_Iterator s) []"

section \<open>Select, Concat, Distinct, Union (linq/linq.go, linq/concat.go, linq/set.go)\<close>

text \<open>
  \<^verbatim>\<open>Select\<close>: the closure captures the upstream iterator \<open>i\<close>;
  \<^verbatim>\<open>if i.Next() { return selector(i.Current()), true }; return nil, false\<close>.
\<close>

function Select_func :: "('a \<Rightarrow> 'b) \<Rightarrow> 'a Iterator \<Rightarrow> 'b IteratorFunc" where
  "Select_func selector i =
     (case Next i of
        Inl p \<Rightarrow> IteratorFunc (Inl p)
      | Inr (more, i') \<Rightarrow>
          if more then (case Current i' of
                          Inl p \<Rightarrow> IteratorFunc (Inl p)
                        | Inr item \<Rightarrow>
                            IteratorFunc (Inr (Some (selector item, Select_func selector i'))))
          else IteratorFunc (Inr None))"
  by pat_completeness auto
termination
  by (relation "measure (\<lambda>(selector, i). remaining i)") (auto dest: Next_remaining)

declare Select_func.simps [simp del]

definition Select :: "('a \<Rightarrow> 'b) \<Rightarrow> 'a Sequence \<Rightarrow> 'b Sequence" where
  "Select selector s = FromSequenceFunction (\<lambda>_. Select_func selector (Sequence_Iterator s))"

text \<open>
  \<^verbatim>\<open>type set map[T]T\<close> with \<^verbatim>\<open>tryAdd\<close> and \<^verbatim>\<open>contains\<close>: only the keys of the map are
  ever read, so the map is modelled as the set of the keys that were added. What the
  run time does with a key of type \<^verbatim>\<open>interface{}\<close> is Go's and not the library's, and
  enters as two parameters. \<open>hashable key\<close> says whether the key can be hashed: a slice, a
  map or a func cannot, and the index expression \<^verbatim>\<open>s[key]\<close> then panics at run time.
  \<open>key_eq a b\<close> is Go's \<^verbatim>\<open>==\<close> on two keys that can be hashed; it need not be reflexive,
  since a NaN equals nothing, itself included, so that \<^verbatim>\<open>s[key]\<close> never finds a NaN and
  adding a NaN adds an entry each time. The index expression finds the key when a key
  added before equals it.
\<close>

definition contains :: "('a \<Rightarrow> bool) \<Rightarrow> ('a \<Rightarrow> 'a \<Rightarrow> bool) \<Rightarrow> 'a set \<Rightarrow> 'a \<Rightarrow> panic + bool" where
  "contains hashable key_eq s key =
     (if \<not> hashable key then Inl UnhashableKey
      else Inr (\<exists>k\<in>s. key_eq k key))"

definition tryAdd ::
  "('a \<Rightarrow> bool) \<Rightarrow> ('a \<Rightarrow> 'a \<Rightarrow> bool) \<Rightarrow> 'a set \<Rightarrow> 'a \<Rightarrow> panic + (bool \<times> 'a set)" where
  "tryAdd hashable key_eq s key =
     (if \<not> hashable key then Inl UnhashableKey
      else let exists = (\<exists>k\<in>s. key_eq k key)
           in Inr (\<not> exists, if \<not> exists then insert key s else s))"

text \<open>
  \<^verbatim>\<open>Distinct\<close>: the closure captures \<open>iter\<close> and \<open>set\<close> (here \<open>seen\<close>) and loops
  until an item is new. A panic of \<^verbatim>\<open>set.tryAdd(item)\<close> is a panic of the closure.
\<close>

function Distinct_func ::
  "('a \<Rightarrow> bool) \<Rightarrow> ('a \<Rightarrow> 'a \<Rightarrow> bool) \<Rightarrow> 'a Iterator \<Rightarrow> 'a set \<Rightarrow> 'a IteratorFunc" where
  "Distinct_func hashable key_eq iter seen =
     (case Next iter of
        Inl p \<Rightarrow> IteratorFunc (Inl p)
      | Inr (more, iter') \<Rightarrow>
          if \<not> more then IteratorFunc (Inr None)
          else (case Current iter' of
                  Inl p \<Rightarrow> IteratorFunc (Inl p)
                | Inr item \<Rightarrow>
                    (case tryAdd hashable key_eq seen item of
                       Inl p \<Rightarrow> IteratorFunc (Inl p)
                     | Inr (added, seen') \<Rightarrow>
                         if added
                         then IteratorFunc
                                (Inr (Some (item, Distinct_func hashable key_eq iter' seen')))
                         else Distinct_func hashable key_eq iter' seen')))"
  by pat_completeness auto
termination
  by (relation "measure (\<lambda>(hashable, key_eq, iter, seen). remaining iter)")
     (auto dest: Next_remaining)

declare Distinct_func.simps [simp del]

definition Distinct ::
  "('a \<Rightarrow> bool) \<Rightarrow> ('a \<Rightarrow> 'a \<Rightarrow> bool) \<Rightarrow> 'a Sequence \<Rightarrow> 'a Sequence" where
  "Distinct hashable key_eq s =
     FromSequenceFunction (\<lambda>_. Distinct_func hashable key_eq (Sequence_Iterator s) {})"

text \<open>
  \<^verbatim>\<open>concatSequence\<close>: the closure captures \<open>iter\<close> (\<open>None\<close> for \<^verbatim>\<open>nil\<close>), \<open>seqs\<close> and
  \<open>index\<close>.
\<close>

function concat_func :: "'a Iterator option \<Rightarrow> 'a Sequence list \<Rightarrow> nat \<Rightarrow> 'a IteratorFunc" where
  "concat_func iter seqs index =
     (case iter of
        None \<Rightarrow>
          if index \<ge> length seqs then IteratorFunc (Inr None)
          else concat_func (Some (Sequence_Iterator (seqs ! index))) seqs (index + 1)
      | Some it \<Rightarrow>
          (case Next it of
             Inl p \<Rightarrow> IteratorFunc (Inl p)
           | Inr (more, it') \<Rightarrow>
               if more then (case Current it' of
                               Inl p \<Rightarrow> IteratorFunc (Inl p)
                             | Inr item \<Rightarrow>
                                 IteratorFunc (Inr (Some (item, concat_func (Some it') seqs index))))
               else concat_func None seqs index))"
  by pat_completeness auto
termination
  by (relation "measures [\<lambda>(iter, seqs, index). length seqs - index,
                          \<lambda>(iter, seqs, index). case iter of None \<Rightarrow> 0 | Some it \<Rightarrow> Suc (remaining it)]")
     (auto dest: Next_remaining)

declare concat_func.simps [simp del]

definition concatSequence :: "'a Sequence \<Rightarrow> 'a Sequence list \<Rightarrow> 'a Sequence" where
  "concatSequence seq sequences =
     MakeFunctionSequence (\<lambda>_. concat_func (Some (Sequence_Iterator seq)) sequences 0)"

definition Concat :: "'a Sequence \<Rightarrow> 'a Sequence list \<Rightarrow> 'a Sequence" where
  "Concat s sequences = (if length sequences \<noteq> 0 then concatSequence s sequences else s)"

definition Union_linq ::
  "('a \<Rightarrow> bool) \<Rightarrow> ('a \<Rightarrow> 'a \<Rightarrow> bool) \<Rightarrow> 'a Sequence \<Rightarrow> 'a Sequence list \<Rightarrow> 'a Sequence" where
  "Union_linq hashable key_eq s sequences =
     (if length sequences \<noteq> 0 then Distinct hashable key_eq (Concat s sequences) else s)"


section \<open>Range and GroupBy (linq/linq.go)\<close>

text \<open>
  \<^verbatim>\<open>Range\<close> and \<^verbatim>\<open>Range2\<close>: the closure captures \<open>n\<close>. Go's \<^verbatim>\<open>int\<close> is taken to be
  64 bits wide: \<open>int_wrap\<close> is the wrap-around of \<^verbatim>\<open>start + n\<close> (\<open>n\<close> itself stays
  below \<open>count\<close>, written \<open>cnt\<close> here).
\<close>

definition int_wrap :: "int \<Rightarrow> int" where
  "int_wrap x = (x + 2 ^ 63) mod 2 ^ 64 - 2 ^ 63"

function Range2_func :: "int \<Rightarrow> int \<Rightarrow> int \<Rightarrow> int IteratorFunc" where
  "Range2_func start cnt n =
     (if n < cnt then IteratorFunc (Inr (Some (int_wrap (start + n), Range2_func start cnt (n + 1))))
      else IteratorFunc (Inr None))"
  by pat_completeness auto
termination
  by (relation "measure (\<lambda>(start, cnt, n). nat (cnt - n))") auto

declare Range2_func.simps [simp del]

definition Range2 :: "int \<Rightarrow> int \<Rightarrow> int Sequence" where
  "Range2 start cnt = FromSequenceFunction (\<lambda>_. Range2_func start cnt 0)"

definition Range_linq :: "int \<Rightarrow> int Sequence" where
  "Range_linq n = Range2 0 n"

text \<open>
  \<^verbatim>\<open>GroupByKV\<close> and \<^verbatim>\<open>GroupBy\<close>. The Go maps \<open>m\<close> and \<open>seqs\<close> are HOL maps;
  \<^verbatim>\<open>for k, v := range m { seqs[k] = From(v) }\<close> gives every key of \<open>m\<close> the sequence of
  its list. The result \<^verbatim>\<open>From(seqs)\<close> is the map-backed \<^verbatim>\<open>genericMapSequence{seqs}\<close>, a
  sequence of pairs. Iterating it goes through \<^verbatim>\<open>reflect.MapRange\<close>, which visits every
  key of the map once in an order the run-time chooses: \<open>MapRange order m\<close> lists the
  pairs for the order \<open>order\<close>, a list of the keys of \<open>m\<close> without repetition.
\<close>

datatype ('k, 'v) genericMapSequence = genericMapSequence "'k \<rightharpoonup> 'v"

function GroupByKV_loop ::
  "('a \<Rightarrow> 'k) \<Rightarrow> ('a \<Rightarrow> 'a) option \<Rightarrow> 'a Iterator \<Rightarrow> ('k \<rightharpoonup> 'a list) \<Rightarrow> panic + ('k \<rightharpoonup> 'a list)" where
  "GroupByKV_loop keySelector valueSelector i m =
     (case Next i of
        Inl p \<Rightarrow> Inl p
      | Inr (more, i') \<Rightarrow>
          if more then
            (case Current i' of
               Inl p \<Rightarrow> Inl p
             | Inr v \<Rightarrow>
                 (let k = keySelector v;
                      v' = (case valueSelector of None \<Rightarrow> v | Some sel \<Rightarrow> sel v)
                  in GroupByKV_loop keySelector valueSelector i'
                       (case m k of
                          Some list \<Rightarrow> m(k \<mapsto> list @ [v'])
                        | None \<Rightarrow> m(k \<mapsto> [v']))))
          else Inr m)"
  by pat_completeness auto
termination
  by (relation "measure (\<lambda>(keySelector, valueSelector, i, m). remaining i)")
     (auto dest: Next_remaining)

declare GroupByKV_loop.simps [simp del]

definition GroupByKV ::
  "('a \<Rightarrow> 'k) \<Rightarrow> ('a \<Rightarrow> 'a) option \<Rightarrow> 'a Sequence \<Rightarrow> panic + ('k, 'a Sequence) genericMapSequence" where
  "GroupByKV keySelector valueSelector s =
     (case GroupByKV_loop keySelector valueSelector (Sequence_Iterator s) Map.empty of
        Inl p \<Rightarrow> Inl p
      | Inr m \<Rightarrow> Inr (genericMapSequence (\<lambda>k. map_option From (m k))))"

definition GroupBy :: "('a \<Rightarrow> 'k) \<Rightarrow> 'a Sequence \<Rightarrow> panic + ('k, 'a Sequence) genericMapSequence" where
  "GroupBy keySelector s = GroupByKV keySelector None s"

definition MapRange :: "'k list \<Rightarrow> ('k \<rightharpoonup> 'v) \<Rightarrow> ('k, 'v) Pair list" where
  "MapRange order m = concat (map (\<lambda>k. case m k of Some v \<Rightarrow> [Pair k v] | None \<Rightarrow> []) order)"

section \<open>Aggregate, TryAggregate and MergeP (linq/aggregate.go)\<close>

text \<open>
  \<^verbatim>\<open>TryAggregate\<close> and \<^verbatim>\<open>Aggregate\<close>. The result \<^verbatim>\<open>(T, bool)\<close> is an option: \<open>None\<close>
  for \<^verbatim>\<open>(nil, false)\<close>. The list \<open>calls\<close> is not in the Go code: it records, in order,
  the two arguments of every call of \<open>agg\<close>, so that a theorem can say when and with what
  the aggregator is invoked.
\<close>

function TryAggregate_loop ::
  "('a \<Rightarrow> 'a \<Rightarrow> 'a) \<Rightarrow> 'a Iterator \<Rightarrow> 'a \<Rightarrow> ('a \<times> 'a) list \<Rightarrow> panic + ('a \<times> ('a \<times> 'a) list)" where
  "TryAggregate_loop agg i v calls =
     (case Next i of
        Inl p \<Rightarrow> Inl p
      | Inr (more, i') \<Rightarrow>
          if more then (case Current i' of
                          Inl p \<Rightarrow> Inl p
                        | Inr item \<Rightarrow> TryAggregate_loop agg i' (agg v item) (calls @ [(v, item)]))
          else Inr (v, calls))"
  by pat_completeness auto
termination
  by (relation "measure (\<lambda>(agg, i, v, calls). remaining i)") (auto dest: Next_remaining)

declare TryAggregate_loop.simps [simp del]

definition TryAggregate ::
  "('a \<Rightarrow> 'a \<Rightarrow> 'a) \<Rightarrow> 'a Sequence \<Rightarrow> panic + ('a option \<times> ('a \<times> 'a) list)" where
  "TryAggregate agg s =
     (let i = Sequence_Iterator s
      in case Next i of
           Inl p \<Rightarrow> Inl p
         | Inr (more, i') \<Rightarrow>
             if \<not> more then Inr (None, [])
             else (case Current i' of
                     Inl p \<Rightarrow> Inl p
                   | Inr v \<Rightarrow>
                       (case TryAggregate_loop agg i' v [] of
                          Inl p \<Rightarrow> Inl p
                        | Inr (v', calls) \<Rightarrow> Inr (Some v', calls))))"

definition Aggregate ::
  "('a \<Rightarrow> 'a \<Rightarrow> 'a) \<Rightarrow> 'a Sequence \<Rightarrow> panic + ('a \<times> ('a \<times> 'a) list)" where
  "Aggregate agg s =
     (case TryAggregate agg s of
        Inl p \<Rightarrow> Inl p
      | Inr (Some item, calls) \<Rightarrow> Inr (item, calls)
      | Inr (None, calls) \<Rightarrow> Inl emptyError)"

text \<open>
  \<^verbatim>\<open>MergeKeep\<close>, \<^verbatim>\<open>MergeKeepLeft\<close>, \<^verbatim>\<open>MergeKeepRight\<close> and \<^verbatim>\<open>MergeP\<close>. A handler
  returns \<^verbatim>\<open>(T, bool)\<close>: \<open>Some nv\<close> for \<^verbatim>\<open>(nv, true)\<close>, \<open>None\<close> when the bool is false (the
  value is not read then). A handler that is \<^verbatim>\<open>nil\<close> is \<open>None\<close>, and so is a \<^verbatim>\<open>nil\<close>
  comparer, which \<open>MergeP\<close> replaces by \<^verbatim>\<open>GenericLessThan\<close> (a parameter here: it compares
  by reflection). \<open>MergeP_keep\<close> is the end of the loop body,
  \<^verbatim>\<open>if keep { return nv, true }\<close>, else the next round of the loop. The closure captures
  \<open>li\<close>, \<open>ri\<close>, \<open>ln\<close>, \<open>rn\<close>.
\<close>

definition MergeKeep :: "'a \<Rightarrow> 'a option" where
  "MergeKeep v = Some v"

definition MergeKeepLeft :: "'a \<Rightarrow> 'a \<Rightarrow> 'a option" where
  "MergeKeepLeft a b = Some a"

definition MergeKeepRight :: "'a \<Rightarrow> 'a \<Rightarrow> 'a option" where
  "MergeKeepRight a b = Some b"

definition MergeP_keep :: "'a option \<Rightarrow> 'a IteratorFunc \<Rightarrow> 'a IteratorFunc" where
  "MergeP_keep r loop = (case r of Some nv \<Rightarrow> IteratorFunc (Inr (Some (nv, loop))) | None \<Rightarrow> loop)"

lemma Next_remaining_more:
  assumes "Next i = Inr (more, i')"
  shows "remaining i' + (if more then 1 else 0) \<le> remaining i"
  using assms Next_remaining [of i i'] Next_remaining_le [of i more i'] by (cases more) auto

function MergeP_func ::
  "('a \<Rightarrow> 'a \<Rightarrow> bool) \<Rightarrow> ('a \<Rightarrow> 'a option) option \<Rightarrow> ('a \<Rightarrow> 'a option) option \<Rightarrow>
   ('a \<Rightarrow> 'a \<Rightarrow> 'a option) option \<Rightarrow> 'a Iterator \<Rightarrow> 'a Iterator \<Rightarrow> bool \<Rightarrow> bool \<Rightarrow>
   'a IteratorFunc" where
  "MergeP_func cmp leftOnly rightOnly both li ri ln rn =
     (if ln \<and> rn then
        (case Current li of
           Inl p \<Rightarrow> IteratorFunc (Inl p)
         | Inr lv \<Rightarrow>
        (case Current ri of
           Inl p \<Rightarrow> IteratorFunc (Inl p)
         | Inr rv \<Rightarrow>
             if cmp lv rv then
               (case Next li of
                  Inl p \<Rightarrow> IteratorFunc (Inl p)
                | Inr (ln', li') \<Rightarrow>
                    MergeP_keep (case leftOnly of None \<Rightarrow> None | Some h \<Rightarrow> h lv)
                      (MergeP_func cmp leftOnly rightOnly both li' ri ln' rn))
             else if cmp rv lv then
               (case Next ri of
                  Inl p \<Rightarrow> IteratorFunc (Inl p)
                | Inr (rn', ri') \<Rightarrow>
                    MergeP_keep (case rightOnly of None \<Rightarrow> None | Some h \<Rightarrow> h rv)
                      (MergeP_func cmp leftOnly rightOnly both li ri' ln rn'))
             else
               (case Next li of
                  Inl p \<Rightarrow> IteratorFunc (Inl p)
                | Inr (ln', li') \<Rightarrow>
               (case Next ri of
                  Inl p \<Rightarrow> IteratorFunc (Inl p)
                | Inr (rn', ri') \<Rightarrow>
                    MergeP_keep (case both of None \<Rightarrow> None | Some h \<Rightarrow> h lv rv)
                      (MergeP_func cmp leftOnly rightOnly both li' ri' ln' rn')))))
      else if ln \<and> leftOnly \<noteq> None then
        (case Current li of
           Inl p \<Rightarrow> IteratorFunc (Inl p)
         | Inr lv \<Rightarrow>
        (case Next li of
           Inl p \<Rightarrow> IteratorFunc (Inl p)
         | Inr (ln', li') \<Rightarrow>
             MergeP_keep (case leftOnly of None \<Rightarrow> None | Some h \<Rightarrow> h lv)
               (MergeP_func cmp leftOnly rightOnly both li' ri ln' rn)))
      else if rn \<and> rightOnly \<noteq> None then
        (case Current ri of
           Inl p \<Rightarrow> IteratorFunc (Inl p)
         | Inr rv \<Rightarrow>
        (case Next ri of
           Inl p \<Rightarrow> IteratorFunc (Inl p)
         | Inr (rn', ri') \<Rightarrow>
             MergeP_keep (case rightOnly of None \<Rightarrow> None | Some h \<Rightarrow> h rv)
               (MergeP_func cmp leftOnly rightOnly both li ri' ln rn')))
      else IteratorFunc (Inr None))"
  by pat_completeness auto
termination
  by (relation "measure (\<lambda>(cmp, leftOnly, rightOnly, both, li, ri, ln, rn).
        remaining li + remaining ri + (if ln then 1 else 0) + (if rn then 1 else 0))")
     (auto dest!: Next_remaining_more split: if_splits)

declare MergeP_func.simps [simp del]

text \<open>
  \<open>li.Next()\<close> and \<open>ri.Next()\<close> run when the sequence function is called; a panic of
  theirs is the answer of the closure's first call here.
\<close>

definition MergeP ::
  "('a \<Rightarrow> 'a \<Rightarrow> bool) \<Rightarrow> 'a Sequence \<Rightarrow> 'a Sequence \<Rightarrow> ('a \<Rightarrow> 'a \<Rightarrow> bool) option \<Rightarrow>
   ('a \<Rightarrow> 'a option) option \<Rightarrow> ('a \<Rightarrow> 'a option) option \<Rightarrow> ('a \<Rightarrow> 'a \<Rightarrow> 'a option) option \<Rightarrow>
   'a Sequence" where
  "MergeP GenericLessThan s rs cmp leftOnly rightOnly both =
     (let cmp' = (case cmp of None \<Rightarrow> GenericLessThan | Some c \<Rightarrow> c)
      in FromSequenceFunction (\<lambda>_.
           let li = Sequence_Iterator s; ri = Sequence_Iterator rs
           in case Next li of
                Inl p \<Rightarrow> IteratorFunc (Inl p)
              | Inr (ln, li') \<Rightarrow>
             (case Next ri of
                Inl p \<Rightarrow> IteratorFunc (Inl p)
              | Inr (rn, ri') \<Rightarrow> MergeP_func cmp' leftOnly rightOnly both li' ri' ln rn)))"

text \<open>
  \<^verbatim>\<open>IntLessThanFunc\<close>, the generated comparer for \<^verbatim>\<open>int\<close>: \<^verbatim>\<open>a.(int) < b.(int)\<close>, as
  \<^verbatim>\<open>Int32LessThanFunc\<close> of zz_generated.int32.go is for \<^verbatim>\<open>int32\<close>.
\<close>

definition IntLessThanFunc :: "int \<Rightarrow> int \<Rightarrow> bool" where
  "IntLessThanFunc a b = (a < b)"

section \<open>Cache, Reverse and Order (linq/linq.go, linq/concat.go)\<close>

text \<open>
  \<^verbatim>\<open>Cache\<close>, \<^verbatim>\<open>Reverse\<close> and \<^verbatim>\<open>OrderPD\<close> declare a variable (\<^verbatim>\<open>items\<close>, \<^verbatim>\<open>items\<close>,
  \<^verbatim>\<open>d\<close>) outside the function they hand to \<^verbatim>\<open>FromSequenceFunction\<close>, so every iterator
  drawn from the returned value reads and writes the same variable, while \<^verbatim>\<open>index\<close> is
  declared inside and is one per iterator. A closure that shares a variable is not a value
  of \<open>IteratorFunc\<close>; it is modelled as a state transformer. One call of the closure takes
  the pair \<open>(c, u)\<close> and \<open>index\<close>, where \<open>c\<close> is the captured variable, \<open>u\<close> the state of
  whatever \<^verbatim>\<open>ToSlice(s.Sequence)\<close> reads, and \<open>index\<close> the iterator's own variable; it gives
  the answer (a panic, \<open>None\<close> for \<^verbatim>\<open>(nil, false)\<close>, \<open>Some item\<close> for \<^verbatim>\<open>(item, true)\<close>) and
  the three as the call left them. \<^verbatim>\<open>Next\<close> of the \<^verbatim>\<open>functionIterator\<close> that wraps the
  closure is one such call.

  The upstream is \<^verbatim>\<open>ToSlice(s.Sequence)\<close> as a function of the upstream's state: the slice
  or the panic, and the state afterwards; \<open>None\<close> is a \<^verbatim>\<open>ToSlice\<close> that does not return.
  \<open>counted_upstream s\<close> is \<open>ToSlice s\<close> for a sequence \<open>s\<close> of the first section, whose state
  is the number of times it has been drained so far.

  A slice variable is a \<open>'a list option\<close>, \<open>None\<close> the \<^verbatim>\<open>nil\<close> slice. \<^verbatim>\<open>ToSlice\<close> returns
  \<^verbatim>\<open>make([]T, 0, capacity)\<close> with the items appended, which is not \<^verbatim>\<open>nil\<close> even when the
  sequence is empty: the assignment \<^verbatim>\<open>items = ToSlice(s.Sequence)\<close> stores \<open>Some xs\<close>.
\<close>

type_synonym ('u, 'a) upstream = "'u \<Rightarrow> ((panic + 'a list) \<times> 'u) option"

definition counted_upstream :: "'a Sequence \<Rightarrow> (nat, 'a) upstream" where
  "counted_upstream s = (\<lambda>drains. Some (ToSlice s, Suc drains))"

type_synonym ('c, 'u, 'a) closure =
  "'c \<times> 'u \<Rightarrow> nat \<Rightarrow> ((panic + 'a option) \<times> ('c \<times> 'u) \<times> nat) option"

text \<open>
  The last lines of the three closures:
  \<^verbatim>\<open>if index < len(items) { item := items[index]; index++; return item, true }; return nil, false\<close>.
\<close>

definition replay :: "'a list \<Rightarrow> nat \<Rightarrow> (panic + 'a option) \<times> nat" where
  "replay items index =
     (if index < length items then (Inr (Some (items ! index)), index + 1)
      else (Inr None, index))"





text \<open>
  \<^verbatim>\<open>type orderData struct { cmp LessThanFunc; items []T }\<close> with its three methods, which
  make \<^verbatim>\<open>*orderData\<close> a \<^verbatim>\<open>sort.Interface\<close>. \<open>slice\<close> reads a slice variable (the \<^verbatim>\<open>nil\<close>
  slice has length 0). \<^verbatim>\<open>Less\<close> and \<^verbatim>\<open>Swap\<close> index the slice, so an index outside it is
  the run-time panic; \<^verbatim>\<open>Swap\<close> returns the struct with the two items exchanged.
\<close>

record 'a orderData =
  cmp :: "'a \<Rightarrow> 'a \<Rightarrow> bool"
  items :: "'a list option"

definition slice :: "'a list option \<Rightarrow> 'a list" where
  "slice s = (case s of None \<Rightarrow> [] | Some xs \<Rightarrow> xs)"

definition orderData_Len :: "'a orderData \<Rightarrow> nat" where
  "orderData_Len d = length (slice (items d))"

definition orderData_Less :: "'a orderData \<Rightarrow> nat \<Rightarrow> nat \<Rightarrow> panic + bool" where
  "orderData_Less d ai bi =
     (if ai < length (slice (items d)) \<and> bi < length (slice (items d))
      then Inr (cmp d (slice (items d) ! ai) (slice (items d) ! bi))
      else Inl IndexOutOfRange)"

definition orderData_Swap :: "'a orderData \<Rightarrow> nat \<Rightarrow> nat \<Rightarrow> panic + 'a orderData" where
  "orderData_Swap d ai bi =
     (if ai < length (slice (items d)) \<and> bi < length (slice (items d))
      then Inr (d\<lparr>items := Some ((slice (items d))[ai := slice (items d) ! bi, bi := slice (items d) ! ai])\<rparr>)
      else Inl IndexOutOfRange)"

text \<open>
  \<^verbatim>\<open>sort.Interface\<close>, \<^verbatim>\<open>sort.Reverse\<close> and \<^verbatim>\<open>sort.Sort\<close> belong to Go's standard library.
  The interface is the record of the three methods over the data \<open>'d\<close> they act on;
  \<^verbatim>\<open>sort.Reverse\<close> is the library's wrapper whose \<^verbatim>\<open>Less(i, j)\<close> is the wrapped
  \<^verbatim>\<open>Less(j, i)\<close>; \<^verbatim>\<open>sort.Sort\<close> is the parameter \<open>sort_Sort\<close> of \<open>OrderPD_func\<close>, from the
  interface and the data to a panic or none, and the data as the call left it.
\<close>

record 'd Interface =
  Len :: "'d \<Rightarrow> nat"
  Less :: "'d \<Rightarrow> nat \<Rightarrow> nat \<Rightarrow> panic + bool"
  Swap :: "'d \<Rightarrow> nat \<Rightarrow> nat \<Rightarrow> panic + 'd"

definition orderData_Interface :: "'a orderData Interface" where
  "orderData_Interface = \<lparr>Len = orderData_Len, Less = orderData_Less, Swap = orderData_Swap\<rparr>"

definition sort_Reverse :: "'d Interface \<Rightarrow> 'd Interface" where
  "sort_Reverse data = data\<lparr>Less := (\<lambda>d i j. Less data d j i)\<rparr>"

text \<open>
  \<^verbatim>\<open>OrderPD\<close>. \<open>OrderPD_new\<close> is the struct \<^verbatim>\<open>d := orderData{cmp: cmp}\<close> after
  \<^verbatim>\<open>if cmp == nil { cmp = GenericLessThan }\<close> (\<open>cmp' = None\<close> is the \<^verbatim>\<open>nil\<close> comparer and
  \<^verbatim>\<open>GenericLessThan\<close>, which compares by reflection, is a parameter). \<open>OrderPD_func\<close> is
  the closure: \<^verbatim>\<open>if d.items == nil { d.items = ToSlice(s.Sequence); ...; sort.Sort(sorter) }\<close>
  and then the replay.
\<close>

definition OrderPD_new :: "('a \<Rightarrow> 'a \<Rightarrow> bool) \<Rightarrow> ('a \<Rightarrow> 'a \<Rightarrow> bool) option \<Rightarrow> 'a orderData" where
  "OrderPD_new GenericLessThan cmp' =
     \<lparr>cmp = (case cmp' of None \<Rightarrow> GenericLessThan | Some c \<Rightarrow> c), items = None\<rparr>"

definition OrderPD_func ::
  "('a orderData Interface \<Rightarrow> 'a orderData \<Rightarrow> panic option \<times> 'a orderData) \<Rightarrow>
   ('u, 'a) upstream \<Rightarrow> bool \<Rightarrow> ('a orderData, 'u, 'a) closure" where
  "OrderPD_func sort_Sort up reverse = (\<lambda>(d, u) index.
     case items d of
       None \<Rightarrow>
         (case up u of
            None \<Rightarrow> None
          | Some (Inl p, u') \<Rightarrow> Some (Inl p, (d, u'), index)
          | Some (Inr xs, u') \<Rightarrow>
              (let d1 = d\<lparr>items := Some xs\<rparr>;
                   sorter = (if reverse then sort_Reverse orderData_Interface else orderData_Interface)
               in case sort_Sort sorter d1 of
                    (Some p, d2) \<Rightarrow> Some (Inl p, (d2, u'), index)
                  | (None, d2) \<Rightarrow>
                      (case replay (slice (items d2)) index of
                         (r, index') \<Rightarrow> Some (r, (d2, u'), index'))))
     | Some xs \<Rightarrow>
         (case replay xs index of (r, index') \<Rightarrow> Some (r, (d, u), index')))"

text \<open>
  \<^verbatim>\<open>ToSlice\<close> of a value made by one of the three operators: the loop of \<open>ToSlice_loop\<close>
  over a fresh iterator (\<open>index = 0\<close>) of the stateful closure. It returns the slice or the
  panic, and the state; \<open>None\<close> is a loop that does not return. \<open>ToSlice_st f\<close> is
  again an upstream, so operators can be stacked.
\<close>

partial_function (option) ToSlice_loop_st ::
  "('c, 'u, 'a) closure \<Rightarrow> 'c \<times> 'u \<Rightarrow> nat \<Rightarrow> 'a list \<Rightarrow> ((panic + 'a list) \<times> ('c \<times> 'u)) option" where
  "ToSlice_loop_st f c index acc =
     (case f c index of
        None \<Rightarrow> None
      | Some (Inl p, c', index') \<Rightarrow> Some (Inl p, c')
      | Some (Inr None, c', index') \<Rightarrow> Some (Inr acc, c')
      | Some (Inr (Some item), c', index') \<Rightarrow> ToSlice_loop_st f c' index' (acc @ [item]))"

declare ToSlice_loop_st.simps [code]

definition ToSlice_st :: "('c, 'u, 'a) closure \<Rightarrow> ('c \<times> 'u, 'a) upstream" where
  "ToSlice_st f = (\<lambda>c. ToSlice_loop_st f c 0 [])"

section \<open>ParallelSelect and ParallelForEach (linq/parallel.go)\<close>

text \<open>
  \<^verbatim>\<open>ParallelSelect\<close> (linq/parallel.go). The thread count of the machine
  (\<^verbatim>\<open>runtime.NumCPU()\<close>) and the goroutine engine of the branch for more than one thread
  are parameters, \<open>NumCPU\<close> and \<open>pool\<close>: the checks on \<open>maxThreads\<close> and the
  single-thread branch are the code's.
\<close>

definition ParallelSelect ::
  "int \<Rightarrow> (int \<Rightarrow> ('a \<Rightarrow> 'b) \<Rightarrow> 'a Sequence \<Rightarrow> 'b Sequence) \<Rightarrow>
   int \<Rightarrow> ('a \<Rightarrow> 'b) \<Rightarrow> 'a Sequence \<Rightarrow> panic + 'b Sequence" where
  "ParallelSelect NumCPU pool maxThreads selector s =
     (case (if maxThreads = 0 then Inr NumCPU
            else if maxThreads < 0 then Inl (Panic ''the number of threads must be non-negative'')
            else Inr maxThreads) of
        Inl p \<Rightarrow> Inl p
      | Inr maxThreads' \<Rightarrow>
          if maxThreads' = 1 then Inr (Select selector s)
          else Inr (pool maxThreads' selector s))"

text \<open>
  \<^verbatim>\<open>ParallelForEach\<close> (linq/parallel.go). An action is a Go \<^verbatim>\<open>func(T)\<close> that may panic,
  and \<^verbatim>\<open>safeAction\<close> recovers the panic: an action is a function to \<open>panic option\<close>,
  \<open>Some p\<close> for a call that panics with the value \<open>p\<close> and \<open>None\<close> for a call that returns.

  The branch \<^verbatim>\<open>threads < 0\<close> starts one goroutine per item. It is a machine whose steps
  are chosen by a schedule, a list of choices: \<open>Main\<close> lets the goroutine that called
  \<^verbatim>\<open>ParallelForEach\<close> take its next step, \<open>Goroutine n\<close> the goroutine that was started as
  number \<open>n\<close>. A choice of a goroutine that cannot move (it was never started or has
  finished, or it is the caller blocked in \<^verbatim>\<open>wg.Wait()\<close> or the caller after the call has
  ended) leaves the world as it is. Every list of choices is a schedule, so what holds for
  every schedule holds for every interleaving of the steps.

  The world of a call: \<open>cursor\<close> is the iterator \<^verbatim>\<open>i\<close>; \<open>wg\<close> is the counter of the
  \<^verbatim>\<open>sync.WaitGroup\<close> (\<^verbatim>\<open>Add\<close> adds to it, \<^verbatim>\<open>Done\<close> takes one off, \<^verbatim>\<open>Wait\<close> blocks until it is
  zero, as Go's standard library documents them); \<open>ex\<close> is the variable of that name,
  \<open>None\<close> for \<^verbatim>\<open>nil\<close>; \<open>goroutines\<close> lists the goroutines started so far, each with the item
  it was given and where it is, \<open>Spawned\<close> before \<^verbatim>\<open>safeAction(item)\<close>, \<open>ActionDone\<close> between
  that and \<^verbatim>\<open>wg.Done()\<close>, \<open>Finished\<close> after; \<open>visited\<close> lists the items the action has been
  called on, in the order of the calls; \<open>pc\<close> is where the caller is, \<open>Looping\<close> in the
  \<^verbatim>\<open>for\<close> statement, \<open>Waiting\<close> at \<^verbatim>\<open>wg.Wait()\<close>, and \<open>Returned r\<close> once the call has ended,
  by \<^verbatim>\<open>return s\<close> when \<open>r = None\<close> and by a panic with the value \<open>p\<close> when \<open>r = Some p\<close>.

  A step of the caller in the loop is one evaluation of \<^verbatim>\<open>ex == nil && i.Next()\<close> and, if
  it is true, the body \<^verbatim>\<open>wg.Add(1); go process(i.Current())\<close>, where the argument of
  \<^verbatim>\<open>process\<close> is evaluated by the caller; a panic of \<^verbatim>\<open>Next\<close> or \<^verbatim>\<open>Current\<close> ends the call.
  The step of the caller at \<^verbatim>\<open>wg.Wait()\<close>, possible when the counter is zero, is
  \<^verbatim>\<open>if ex != nil { panic(ex) }; return s\<close>. The first step of a goroutine is
  \<^verbatim>\<open>safeAction(item)\<close>, which calls the action and stores a recovered panic in \<^verbatim>\<open>ex\<close>; the
  second is \<^verbatim>\<open>wg.Done()\<close>. Each step is taken at once. A step of a goroutine holds one
  access to what the goroutines share, the write of \<^verbatim>\<open>ex\<close> or the decrement of the counter.
  The step of the caller in the loop reads \<^verbatim>\<open>ex\<close> first; what follows the read uses the
  iterator, which only the caller uses, and adds to the counter, which commutes with the
  decrements by the goroutines, so that no interleaving is lost. Of a call of the action
  the model keeps the item it was called on and whether it panicked.

  The branch with a limit (\<^verbatim>\<open>threads >= 0\<close>: \<^verbatim>\<open>runtime.NumCPU()\<close>, \<^verbatim>\<open>ForEach\<close> for one
  thread, the workers on a channel) is the parameter \<open>pool\<close>.
\<close>
datatype goroutine_pc = Spawned | ActionDone | Finished

datatype main_pc = Looping | Waiting | Returned "panic option"

record 'a fanout =
  cursor :: "'a Iterator"
  wg :: int
  ex :: "panic option"
  goroutines :: "('a \<times> goroutine_pc) list"
  visited :: "'a list"
  pc :: main_pc





section \<open>What a sequence yields\<close>

text \<open>
  Specification-side notions, used only to state and prove the theorems: \<open>map_result\<close>
  maps over a result that is not a panic, \<open>items_of\<close> lists what a closure answers until
  it answers \<^verbatim>\<open>(nil, false)\<close>, \<open>drain\<close> does the same for an iterator, \<open>ToSlice_all\<close>
  is \<open>ToSlice\<close> of each sequence of a list, one after the other. \<open>first_occurrences\<close>
  keeps the item at position \<open>i\<close> exactly when no earlier position holds an item that
  equals it under \<open>key_eq\<close>; \<open>distinct_from\<close> is the same selection made from left to
  right with the set of the keys kept so far.
\<close>


fun map_result :: "('a \<Rightarrow> 'b) \<Rightarrow> panic + 'a \<Rightarrow> panic + 'b" where
  "map_result f (Inl p) = Inl p"
| "map_result f (Inr x) = Inr (f x)"

lemma map_result_comp: "map_result f (map_result g x) = map_result (f \<circ> g) x"
  by (cases x) auto

lemma map_result_cong: "(\<And>y. x = Inr y \<Longrightarrow> f y = g y) \<Longrightarrow> map_result f x = map_result g x"
  by (cases x) auto

lemma map_result_append_Nil [simp]: "map_result ((@) []) x = x"
  by (cases x) auto

fun items_of :: "'a IteratorFunc \<Rightarrow> panic + 'a list" where
  "items_of (IteratorFunc (Inl p)) = Inl p"
| "items_of (IteratorFunc (Inr None)) = Inr []"
| "items_of (IteratorFunc (Inr (Some (item, g)))) = map_result ((#) item) (items_of g)"

function drain :: "'a Iterator \<Rightarrow> panic + 'a list" where
  "drain i =
     (case Next i of
        Inl p \<Rightarrow> Inl p
      | Inr (ok, i') \<Rightarrow>
          if ok then (case Current i' of
                        Inl p \<Rightarrow> Inl p
                      | Inr item \<Rightarrow> map_result ((#) item) (drain i'))
          else Inr [])"
  by pat_completeness auto
termination
  by (relation "measure remaining") (auto dest: Next_remaining)

declare drain.simps [simp del]

lemma ToSlice_loop_drain: "ToSlice_loop i acc = map_result ((@) acc) (drain i)"
proof (induction i acc rule: ToSlice_loop.induct)
  case (1 i its)
  show ?case
    by (subst ToSlice_loop.simps, subst drain.simps)
       (auto simp: "1.IH" map_result_comp comp_def split: sum.splits prod.splits)
qed

lemma ToSlice_drain: "ToSlice s = drain (Sequence_Iterator s)"
  by (cases "drain (Sequence_Iterator s)") (simp_all add: ToSlice_def ToSlice_loop_drain)

lemma drain_function: "drain (functionIterator g c v) = items_of g"
proof (induction g arbitrary: c v rule: items_of.induct)
  case (1 p)
  then show ?case by (subst drain.simps) simp
next
  case 2
  then show ?case by (subst drain.simps) simp
next
  case (3 item g)
  then show ?case by (subst drain.simps) simp
qed

lemma drain_array:
  "- 1 \<le> index \<Longrightarrow> drain (genericArrayIterator array index) = Inr (drop (nat (index + 1)) array)"
proof (induction "length array - nat (index + 1)" arbitrary: index)
  case 0
  then show ?case by (subst drain.simps) (auto simp: Let_def)
next
  case (Suc n)
  then have lt: "index + 1 < int (length array)" by linarith
  have "drain (genericArrayIterator array (index + 1)) = Inr (drop (nat (index + 1 + 1)) array)"
    using Suc by (intro Suc.hyps(1)) auto
  moreover have "drop (nat (index + 1)) array = array ! nat (index + 1) # drop (nat (index + 1 + 1)) array"
    proof -
    have "nat (index + 1 + 1) = Suc (nat (index + 1))" using Suc.prems by linarith
    moreover have "nat (index + 1) < length array" using lt Suc.prems by linarith
    ultimately show ?thesis by (simp add: Cons_nth_drop_Suc)
  qed
  ultimately show ?case using lt Suc.prems
    by (subst drain.simps) (simp add: Let_def)
qed

lemma ToSlice_array: "ToSlice (genericArraySequence xs) = Inr xs"
  by (simp add: ToSlice_drain drain_array)

lemma ToSlice_function: "ToSlice (functionSequence f) = items_of (f ())"
  by (simp add: ToSlice_drain drain_function)

lemma items_of_Select: "items_of (Select_func selector i) = map_result (map selector) (drain i)"
proof (induction selector i rule: Select_func.induct)
  case (1 selector i)
  show ?case
    by (subst Select_func.simps, subst drain.simps)
       (auto simp: "1.IH" map_result_comp comp_def split: sum.splits prod.splits)
qed

lemma ToSlice_Select: "ToSlice (Select selector s) = map_result (map selector) (ToSlice s)"
  by (simp add: Select_def FromSequenceFunction_def MakeFunctionSequence_def ToSlice_function
      items_of_Select ToSlice_drain [symmetric])


fun distinct_from :: "('a \<Rightarrow> 'a \<Rightarrow> bool) \<Rightarrow> 'a set \<Rightarrow> 'a list \<Rightarrow> 'a list" where
  "distinct_from key_eq seen [] = []"
| "distinct_from key_eq seen (x # xs) =
     (if \<exists>k\<in>seen. key_eq k x then distinct_from key_eq seen xs
      else x # distinct_from key_eq (insert x seen) xs)"

definition first_occurrences :: "('a \<Rightarrow> 'a \<Rightarrow> bool) \<Rightarrow> 'a list \<Rightarrow> 'a list" where
  "first_occurrences key_eq xs =
     nths xs {i. i < length xs \<and> (\<forall>j<i. \<not> key_eq (xs ! j) (xs ! i))}"

fun ToSlice_all :: "'a Sequence list \<Rightarrow> panic + 'a list" where
  "ToSlice_all [] = Inr []"
| "ToSlice_all (s # ss) =
     (case ToSlice s of Inl p \<Rightarrow> Inl p | Inr xs \<Rightarrow> map_result ((@) xs) (ToSlice_all ss))"

lemma Next_False_drain:
  assumes "Next i = Inr (False, i')"
  shows "drain i' = Inr []"
proof (cases i)
  case (genericArrayIterator array index)
  with assms have "i' = genericArrayIterator array index" "\<not> index + 1 < int (length array)"
    by (auto simp: Let_def split: if_splits)
  then show ?thesis by (subst drain.simps) (simp add: Let_def)
next
  case (functionIterator f cur valid)
  with assms have "i' = functionIterator f None False" "call f = Inr None"
    by (auto split: sum.splits option.splits)
  then show ?thesis by (subst drain.simps) simp
qed

lemma drain_Inr_cases:
  assumes "drain i = Inr rest"
  obtains (exhausted) i' where "Next i = Inr (False, i')" "rest = []" "drain i' = Inr []"
    | (item) i' x rest' where "Next i = Inr (True, i')" "Current i' = Inr x"
        "drain i' = Inr rest'" "rest = x # rest'"
proof (cases "Next i")
  case (Inl p)
  with assms show ?thesis by (subst (asm) drain.simps) simp
next
  case (Inr r)
  obtain ok i' where r: "r = (ok, i')" by (cases r)
  show ?thesis
  proof (cases ok)
    case False
    with Inr r assms have "rest = []" by (subst (asm) drain.simps) simp
    with Inr r False Next_False_drain [of i i'] exhausted show ?thesis by simp
  next
    case True
    show ?thesis
    proof (cases "Current i'")
      case (Inl p)
      with Inr r True assms show ?thesis by (subst (asm) drain.simps) simp
    next
      case cur: (Inr x)
      show ?thesis
      proof (cases "drain i'")
        case (Inl p)
        with Inr r True cur assms show ?thesis by (subst (asm) drain.simps) simp
      next
        case dr: (Inr rest')
        with Inr r True cur assms have "rest = x # rest'"
          by (subst (asm) drain.simps) simp
        with Inr r True cur dr item show ?thesis by simp
      qed
    qed
  qed
qed

lemma drain_Inl_cases:
  assumes "drain i = Inl p"
  obtains (next_panics) "Next i = Inl p"
    | (current_panics) i' where "Next i = Inr (True, i')" "Current i' = Inl p"
    | (later) i' x where "Next i = Inr (True, i')" "Current i' = Inr x" "drain i' = Inl p"
proof (cases "Next i")
  case (Inl q)
  with assms have "q = p" by (subst (asm) drain.simps) simp
  with Inl next_panics show ?thesis by simp
next
  case (Inr r)
  obtain ok i' where r: "r = (ok, i')" by (cases r)
  show ?thesis
  proof (cases ok)
    case False
    with Inr r assms show ?thesis by (subst (asm) drain.simps) simp
  next
    case True
    show ?thesis
    proof (cases "Current i'")
      case (Inl q)
      with Inr r True assms have "q = p" by (subst (asm) drain.simps) simp
      with Inl Inr r True current_panics show ?thesis by simp
    next
      case cur: (Inr x)
      with Inr r True assms have "drain i' = Inl p"
        by (subst (asm) drain.simps) (cases "drain i'", simp_all)
      with Inr r True cur later show ?thesis by simp
    qed
  qed
qed

lemma Distinct_func_exhausted:
  "Next iter = Inr (False, i') \<Longrightarrow> Distinct_func h e iter seen = IteratorFunc (Inr None)"
  by (subst Distinct_func.simps) simp

lemma Distinct_func_Next_panics:
  "Next iter = Inl p \<Longrightarrow> Distinct_func h e iter seen = IteratorFunc (Inl p)"
  by (subst Distinct_func.simps) simp

lemma Distinct_func_Current_panics:
  "Next iter = Inr (True, i') \<Longrightarrow> Current i' = Inl p \<Longrightarrow>
   Distinct_func h e iter seen = IteratorFunc (Inl p)"
  by (subst Distinct_func.simps) simp

lemma Distinct_func_unhashable:
  "Next iter = Inr (True, i') \<Longrightarrow> Current i' = Inr x \<Longrightarrow> \<not> h x \<Longrightarrow>
   Distinct_func h e iter seen = IteratorFunc (Inl UnhashableKey)"
  by (subst Distinct_func.simps) (simp add: tryAdd_def)

lemma Distinct_func_found:
  "Next iter = Inr (True, i') \<Longrightarrow> Current i' = Inr x \<Longrightarrow> h x \<Longrightarrow> \<exists>k\<in>seen. e k x \<Longrightarrow>
   Distinct_func h e iter seen = Distinct_func h e i' seen"
  by (subst Distinct_func.simps) (simp add: tryAdd_def)

lemma Distinct_func_added:
  "Next iter = Inr (True, i') \<Longrightarrow> Current i' = Inr x \<Longrightarrow> h x \<Longrightarrow> \<not> (\<exists>k\<in>seen. e k x) \<Longrightarrow>
   Distinct_func h e iter seen
     = IteratorFunc (Inr (Some (x, Distinct_func h e i' (insert x seen))))"
  by (subst Distinct_func.simps) (simp add: tryAdd_def)


lemma items_of_Distinct:
  assumes "drain iter = Inr xs"
  shows "items_of (Distinct_func h e iter seen)
       = (if \<forall>x\<in>set xs. h x then Inr (distinct_from e seen xs) else Inl UnhashableKey)"
  using assms
proof (induction "remaining iter" arbitrary: iter seen xs rule: less_induct)
  case less
  from less.prems show ?case
  proof (cases rule: drain_Inr_cases)
    case (exhausted i')
    then show ?thesis by (simp add: Distinct_func_exhausted)
  next
    case (item i' x rest')
    from item(1) have lt: "remaining i' < remaining iter" by (rule Next_remaining)
    note ih = less.hyps [OF lt item(3)]
    show ?thesis
    proof (cases "h x")
      case False
      with item show ?thesis by (simp add: Distinct_func_unhashable)
    next
      case True
      show ?thesis
      proof (cases "\<exists>k\<in>seen. e k x")
        case found: True
        from Distinct_func_found [where h = h and e = e, OF item(1,2) True found]
        have "Distinct_func h e iter seen = Distinct_func h e i' seen" .
        with ih [of seen] item(4) True found show ?thesis by simp
      next
        case new: False
        from Distinct_func_added [where h = h and e = e, OF item(1,2) True new]
        have "Distinct_func h e iter seen
            = IteratorFunc (Inr (Some (x, Distinct_func h e i' (insert x seen))))" .
        with ih [of "insert x seen"] item(4) True new show ?thesis by simp
      qed
    qed
  qed
qed

lemma items_of_Distinct_panics:
  assumes "drain iter = Inl p"
  shows "\<exists>q. items_of (Distinct_func h e iter seen) = Inl q"
  using assms
proof (induction "remaining iter" arbitrary: iter seen rule: less_induct)
  case less
  from less.prems show ?case
  proof (cases rule: drain_Inl_cases)
    case next_panics
    then show ?thesis by (simp add: Distinct_func_Next_panics)
  next
    case (current_panics i')
    then show ?thesis by (simp add: Distinct_func_Current_panics)
  next
    case (later i' x)
    from later(1) have lt: "remaining i' < remaining iter" by (rule Next_remaining)
    note ih = less.hyps [OF lt later(3)]
    show ?thesis
    proof (cases "h x")
      case False
      with later show ?thesis by (simp add: Distinct_func_unhashable)
    next
      case True
      show ?thesis
      proof (cases "\<exists>k\<in>seen. e k x")
        case found: True
        from Distinct_func_found [where h = h and e = e, OF later(1,2) True found] ih [of seen]
        show ?thesis by simp
      next
        case new: False
        from ih [of "insert x seen"] obtain q where
          "items_of (Distinct_func h e i' (insert x seen)) = Inl q" ..
        with Distinct_func_added [where h = h and e = e, OF later(1,2) True new] show ?thesis by simp
      qed
    qed
  qed
qed

lemma items_of_Distinct_Distinct:
  assumes "seen' \<subseteq> seen"
  shows "items_of (Distinct_func h e (functionIterator (Distinct_func h e i seen) c v) seen')
       = items_of (Distinct_func h e i seen)"
  using assms
proof (induction "remaining i" arbitrary: i seen seen' c v rule: less_induct)
  case less
  let ?g = "Distinct_func h e i seen"
  show ?case
  proof (cases "Next i")
    case (Inl p)
    then have g: "?g = IteratorFunc (Inl p)" by (rule Distinct_func_Next_panics)
    then have "Next (functionIterator ?g c v) = Inl p" by simp
    then have "Distinct_func h e (functionIterator ?g c v) seen' = IteratorFunc (Inl p)"
      by (rule Distinct_func_Next_panics)
    with g show ?thesis by simp
  next
    case (Inr r)
    obtain ok i' where r: "r = (ok, i')" by (cases r)
    show ?thesis
    proof (cases ok)
      case False
      with Inr r have g: "?g = IteratorFunc (Inr None)" by (simp add: Distinct_func_exhausted)
      then have "Next (functionIterator ?g c v) = Inr (False, functionIterator ?g None False)"
        by simp
      then have "Distinct_func h e (functionIterator ?g c v) seen' = IteratorFunc (Inr None)"
        by (rule Distinct_func_exhausted)
      with g show ?thesis by simp
    next
      case True
      with Inr r have nxt: "Next i = Inr (True, i')" by simp
      then have lt: "remaining i' < remaining i" by (rule Next_remaining)
      show ?thesis
      proof (cases "Current i'")
        case (Inl p)
        with nxt have g: "?g = IteratorFunc (Inl p)" by (rule Distinct_func_Current_panics)
        then have "Next (functionIterator ?g c v) = Inl p" by simp
        then have "Distinct_func h e (functionIterator ?g c v) seen' = IteratorFunc (Inl p)"
          by (rule Distinct_func_Next_panics)
        with g show ?thesis by simp
      next
        case cur: (Inr x)
        show ?thesis
        proof (cases "h x")
          case False
          from Distinct_func_unhashable [where h = h and e = e, OF nxt cur False]
          have g: "?g = IteratorFunc (Inl UnhashableKey)" .
          then have "Next (functionIterator ?g c v) = Inl UnhashableKey" by simp
          then have "Distinct_func h e (functionIterator ?g c v) seen'
              = IteratorFunc (Inl UnhashableKey)"
            by (rule Distinct_func_Next_panics)
          with g show ?thesis by simp
        next
          case hx: True
          show ?thesis
          proof (cases "\<exists>k\<in>seen. e k x")
            case found: True
            from Distinct_func_found [where h = h and e = e, OF nxt cur hx found]
            have g: "?g = Distinct_func h e i' seen" .
            from less.hyps [OF lt less.prems, of c v] g show ?thesis by simp
          next
            case new: False
            let ?g' = "Distinct_func h e i' (insert x seen)"
            from Distinct_func_added [where h = h and e = e, OF nxt cur hx new]
            have g: "?g = IteratorFunc (Inr (Some (x, ?g')))" .
            then have n2: "Next (functionIterator ?g c v)
                = Inr (True, functionIterator ?g' (Some x) True)"
              by simp
            have c2: "Current (functionIterator ?g' (Some x) True) = Inr x" by simp
            from new less.prems have new': "\<not> (\<exists>k\<in>seen'. e k x)" by blast
            from less.prems have sub: "insert x seen' \<subseteq> insert x seen" by blast
            from Distinct_func_added [where h = h and e = e, OF n2 c2 hx new']
            have "Distinct_func h e (functionIterator ?g c v) seen'
                = IteratorFunc (Inr (Some (x,
                    Distinct_func h e (functionIterator ?g' (Some x) True) (insert x seen'))))" .
            with less.hyps [OF lt sub, of "Some x" True] g show ?thesis by simp
          qed
        qed
      qed
    qed
  qed
qed

lemma ToSlice_Distinct:
  assumes "ToSlice s = Inr xs"
  shows "ToSlice (Distinct h e s)
       = (if \<forall>x\<in>set xs. h x then Inr (distinct_from e {} xs) else Inl UnhashableKey)"
  using assms [unfolded ToSlice_drain]
  by (simp add: Distinct_def FromSequenceFunction_def MakeFunctionSequence_def ToSlice_function
      items_of_Distinct)

lemma ToSlice_Distinct_panics:
  assumes "ToSlice s = Inl p"
  shows "\<exists>q. ToSlice (Distinct h e s) = Inl q"
  using assms [unfolded ToSlice_drain]
  by (simp add: Distinct_def FromSequenceFunction_def MakeFunctionSequence_def ToSlice_function
      items_of_Distinct_panics)

lemma ToSlice_Distinct_Distinct: "ToSlice (Distinct h e (Distinct h e s)) = ToSlice (Distinct h e s)"
  by (simp add: Distinct_def FromSequenceFunction_def MakeFunctionSequence_def ToSlice_function
      items_of_Distinct_Distinct)

lemma distinct_from_nths:
  assumes trans: "\<And>a b c. e a b \<Longrightarrow> e b c \<Longrightarrow> e a c"
  shows "distinct_from e seen xs
       = nths xs {i. i < length xs \<and> \<not> (\<exists>k\<in>seen. e k (xs ! i)) \<and> (\<forall>j<i. \<not> e (xs ! j) (xs ! i))}"
proof (induction xs arbitrary: seen)
  case Nil
  then show ?case by simp
next
  case (Cons x xs)
  let ?A = "{i. i < length (x # xs) \<and> \<not> (\<exists>k\<in>seen. e k ((x # xs) ! i))
      \<and> (\<forall>j<i. \<not> e ((x # xs) ! j) ((x # xs) ! i))}"
  have zero: "0 \<in> ?A \<longleftrightarrow> \<not> (\<exists>k\<in>seen. e k x)" by simp
  have suc: "{j. Suc j \<in> ?A}
      = {j. j < length xs \<and> \<not> (\<exists>k\<in>seen. e k (xs ! j)) \<and> \<not> e x (xs ! j)
            \<and> (\<forall>j'<j. \<not> e (xs ! j') (xs ! j))}"
    by (auto simp: All_less_Suc2)
  show ?case
  proof (cases "\<exists>k\<in>seen. e k x")
    case True
    then obtain k where k: "k \<in> seen" "e k x" by blast
    from True have a0: "0 \<notin> ?A" by simp
    have s: "{j. Suc j \<in> ?A}
        = {j. j < length xs \<and> \<not> (\<exists>k\<in>seen. e k (xs ! j)) \<and> (\<forall>j'<j. \<not> e (xs ! j') (xs ! j))}"
      unfolding suc using k trans by blast
    have "distinct_from e seen (x # xs) = distinct_from e seen xs" using True by simp
    also have "\<dots> = nths xs {j. j < length xs \<and> \<not> (\<exists>k\<in>seen. e k (xs ! j))
        \<and> (\<forall>j'<j. \<not> e (xs ! j') (xs ! j))}"
      by (rule Cons.IH)
    also have "\<dots> = nths (x # xs) ?A"
      by (simp only: nths_Cons s a0 if_False append_Nil)
    finally show ?thesis .
  next
    case False
    then have a0: "0 \<in> ?A" by simp
    have s: "{j. Suc j \<in> ?A}
        = {j. j < length xs \<and> \<not> (\<exists>k\<in>insert x seen. e k (xs ! j))
              \<and> (\<forall>j'<j. \<not> e (xs ! j') (xs ! j))}"
      unfolding suc by blast
    have "distinct_from e seen (x # xs) = x # distinct_from e (insert x seen) xs"
      using False by simp
    also have "\<dots> = x # nths xs {j. j < length xs \<and> \<not> (\<exists>k\<in>insert x seen. e k (xs ! j))
        \<and> (\<forall>j'<j. \<not> e (xs ! j') (xs ! j))}"
      by (simp only: Cons.IH)
    also have "\<dots> = nths (x # xs) ?A"
      by (simp only: nths_Cons s a0 if_True append_Cons append_Nil)
    finally show ?thesis .
  qed
qed

lemma distinct_from_first_occurrences:
  "(\<And>a b c. e a b \<Longrightarrow> e b c \<Longrightarrow> e a c) \<Longrightarrow> distinct_from e {} xs = first_occurrences e xs"
  by (simp add: distinct_from_nths first_occurrences_def)

lemma set_distinct_from: "set (distinct_from e seen xs) \<subseteq> set xs"
  by (induction xs arbitrary: seen) auto

lemma distinct_from_represents:
  "x \<in> set xs \<Longrightarrow>
   x \<in> set (distinct_from e seen xs) \<or> (\<exists>k\<in>seen \<union> set (distinct_from e seen xs). e k x)"
proof (induction xs arbitrary: seen)
  case Nil
  then show ?case by simp
next
  case (Cons a xs)
  show ?case
  proof (cases "x = a")
    case True
    then show ?thesis by auto
  next
    case False
    with Cons.prems have x: "x \<in> set xs" by simp
    show ?thesis
    proof (cases "\<exists>k\<in>seen. e k a")
      case True
      with Cons.IH [OF x, of seen] show ?thesis by simp
    next
      case False
      with Cons.IH [OF x, of "insert a seen"] show ?thesis by auto
    qed
  qed
qed

lemma distinct_from_unseen:
  "y \<in> set (distinct_from e seen xs) \<Longrightarrow> k \<in> seen \<Longrightarrow> \<not> e k y"
proof (induction xs arbitrary: seen)
  case Nil
  then show ?case by simp
next
  case (Cons a xs)
  then show ?case by (auto split: if_splits)
qed

lemma distinct_from_pairwise:
  "i < j \<Longrightarrow> j < length (distinct_from e seen xs) \<Longrightarrow>
   \<not> e (distinct_from e seen xs ! i) (distinct_from e seen xs ! j)"
proof (induction xs arbitrary: seen i j)
  case Nil
  then show ?case by simp
next
  case (Cons a xs)
  show ?case
  proof (cases "\<exists>k\<in>seen. e k a")
    case True
    with Cons show ?thesis by simp
  next
    case False
    let ?ys = "distinct_from e (insert a seen) xs"
    from False have eq: "distinct_from e seen (a # xs) = a # ?ys" by simp
    from Cons.prems eq obtain j' where j: "j = Suc j'" "j' < length ?ys"
      by (cases j) auto
    show ?thesis
    proof (cases i)
      case 0
      from j have "?ys ! j' \<in> set ?ys" by simp
      from distinct_from_unseen [OF this, of a] have "\<not> e a (?ys ! j')" by simp
      with 0 j eq show ?thesis by simp
    next
      case (Suc i')
      with Cons.prems j have "i' < j'" by simp
      from Cons.IH [OF this j(2)] Suc j eq show ?thesis by simp
    qed
  qed
qed

lemma items_of_concat:
  "items_of (concat_func iter seqs index) =
     (case iter of
        None \<Rightarrow> ToSlice_all (drop index seqs)
      | Some it \<Rightarrow> (case drain it of
                     Inl p \<Rightarrow> Inl p
                   | Inr xs \<Rightarrow> map_result ((@) xs) (ToSlice_all (drop index seqs))))"
proof (induction iter seqs index rule: concat_func.induct)
  case (1 iter seqs index)
  show ?case
  proof (cases iter)
    case None
    show ?thesis
    proof (cases "index \<ge> length seqs")
      case True
      with None show ?thesis by (subst concat_func.simps) simp
    next
      case False
      then have d: "drop index seqs = seqs ! index # drop (Suc index) seqs"
        by (simp add: Cons_nth_drop_Suc)
      have "items_of (concat_func (Some (Sequence_Iterator (seqs ! index))) seqs (index + 1)) =
          (case drain (Sequence_Iterator (seqs ! index)) of
             Inl p \<Rightarrow> Inl p
           | Inr xs \<Rightarrow> map_result ((@) xs) (ToSlice_all (drop (index + 1) seqs)))"
        using "1.IH"(1) [OF None False] by simp
      with None False show ?thesis
        by (subst concat_func.simps) (simp add: d ToSlice_drain cong: sum.case_cong)
    qed
  next
    case (Some it)
    then show ?thesis
      by (subst concat_func.simps, subst drain.simps)
         (auto simp: "1.IH" map_result_comp intro!: map_result_cong split: sum.splits prod.splits)
  qed
qed

lemma ToSlice_concatSequence: "ToSlice (concatSequence s seqs) = ToSlice_all (s # seqs)"
  by (simp add: concatSequence_def MakeFunctionSequence_def ToSlice_function items_of_concat
      ToSlice_drain [symmetric] cong: sum.case_cong)

lemma ToSlice_all_single: "ToSlice_all [s] = ToSlice s"
  by (cases "ToSlice s") auto

lemma ToSlice_Concat: "ToSlice (Concat s seqs) = ToSlice_all (s # seqs)"
  by (cases seqs) (simp_all add: Concat_def ToSlice_concatSequence ToSlice_all_single del: ToSlice_all.simps)



section \<open>Claims\<close>

subsection \<open>C1: Current out of protocol\<close>

lemma functionIterator_exhausted_Current:
  assumes "Next (functionIterator f cur valid) = Inr (False, i')"
  shows "Current i' = Inl (Panic ''Current called outside sequence'')"
  using assms by (auto split: sum.splits option.splits)

lemma genericArrayIterator_exhausted_Current:
  assumes nxt: "Next (genericArrayIterator array index) = Inr (False, i')"
    and lo: "- 1 \<le> index" and hi: "index < int (length array)"
  shows "Current i' = (if array = [] then Inl IndexOutOfRange else Inr (last array))"
proof -
  from nxt have i': "i' = genericArrayIterator array index"
    and ge: "int (length array) \<le> index + 1"
    by (auto simp: Let_def split: if_splits)
  show ?thesis
  proof (cases "array = []")
    case True
    with i' show ?thesis by simp
  next
    case False
    then have "0 < length array" by simp
    with ge hi have idx: "index = int (length array) - 1" by linarith
    then have "nat index = length array - 1" by simp
    with False idx i' show ?thesis by (simp add: last_conv_nth)
  qed
qed

text \<open>
  What the development asks of \<^verbatim>\<open>reflect.MapIter\<close>, as Go documents it: \<^verbatim>\<open>Key\<close> panics on
  the iterator that \<^verbatim>\<open>MapRange()\<close> returns, before any \<^verbatim>\<open>Next\<close>, and it panics on an
  iterator whose \<^verbatim>\<open>Next\<close> has returned false.
\<close>

definition MapIter_contract ::
  "('m \<Rightarrow> panic + 'k) \<Rightarrow> ('m \<Rightarrow> panic + (bool \<times> 'm)) \<Rightarrow> 'm \<Rightarrow> bool" where
  "MapIter_contract Key MapIter_Next fresh \<longleftrightarrow>
     (\<exists>p. Key fresh = Inl p)
     \<and> (\<forall>m m'. MapIter_Next m = Inr (False, m') \<longrightarrow> (\<exists>p. Key m' = Inl p))"

text \<open>
  The contract can be met: \<^verbatim>\<open>reflect.MapIter\<close> over the entries of a map in the order in
  which the run time visits them. The iterator has not started, or is at an entry with
  the entries still to come, or is exhausted; the panics are those of the library.
\<close>

datatype ('k, 'v) MapIter =
    NotStarted "('k \<times> 'v) list"
  | At "'k \<times> 'v" "('k \<times> 'v) list"
  | Exhausted

fun MapIter_Key :: "('k, 'v) MapIter \<Rightarrow> panic + 'k" where
  "MapIter_Key (NotStarted es) = Inl (Panic ''MapIter.Key called before Next'')"
| "MapIter_Key (At e es) = Inr (fst e)"
| "MapIter_Key Exhausted = Inl (Panic ''MapIter.Key called on exhausted iterator'')"

fun MapIter_Value :: "('k, 'v) MapIter \<Rightarrow> panic + 'v" where
  "MapIter_Value (NotStarted es) = Inl (Panic ''MapIter.Value called before Next'')"
| "MapIter_Value (At e es) = Inr (snd e)"
| "MapIter_Value Exhausted = Inl (Panic ''MapIter.Value called on exhausted iterator'')"

fun MapIter_Next :: "('k, 'v) MapIter \<Rightarrow> panic + (bool \<times> ('k, 'v) MapIter)" where
  "MapIter_Next (NotStarted []) = Inr (False, Exhausted)"
| "MapIter_Next (NotStarted (e # es)) = Inr (True, At e es)"
| "MapIter_Next (At e []) = Inr (False, Exhausted)"
| "MapIter_Next (At e (e' # es)) = Inr (True, At e' es)"
| "MapIter_Next Exhausted = Inl (Panic ''MapIter.Next called on exhausted iterator'')"

lemma MapIter_Next_False:
  assumes "MapIter_Next m = Inr (False, m')"
  shows "m' = Exhausted"
proof (cases m)
  case (NotStarted es)
  with assms show ?thesis by (cases es) simp_all
next
  case (At e es)
  with assms show ?thesis by (cases es) simp_all
next
  case Exhausted
  with assms show ?thesis by simp
qed

lemma MapIter_meets_contract: "MapIter_contract MapIter_Key MapIter_Next (NotStarted es)"
  unfolding MapIter_contract_def by (auto dest: MapIter_Next_False)

lemma mapIterator_Current_Key_panics:
  assumes "Key m = Inl p"
  shows "mapIterator_Current Key Value m = Inl p"
  using assms by (simp add: mapIterator_Current_def)

text \<open>
  C1, as the code has it. A function-backed iterator panics with
  \<^verbatim>\<open>"Current called outside sequence"\<close> when \<open>Current\<close> is called on a fresh iterator and
  when it is called after \<open>Next\<close> has returned false. A map-backed iterator, whose
  \<open>Current\<close> calls \<^verbatim>\<open>reflect.MapIter\<close>'s \<^verbatim>\<open>Key\<close> first, panics in both situations with the
  library's panic. An array- or slice-backed iterator has no check: on a fresh iterator
  \<open>Current\<close> reads index \<open>-1\<close> and panics with the run-time's index error; after \<open>Next\<close>
  has returned false the index still is the last one it reached, so \<open>Current\<close> panics
  only when the array is empty and otherwise returns the last item.
\<close>

theorem Current_out_of_protocol:
  "Current (Sequence_Iterator (functionSequence sf)) = Inl (Panic ''Current called outside sequence'')
   \<and> (\<forall>f cur valid i'. Next (functionIterator f cur valid) = Inr (False, i') \<longrightarrow>
         Current i' = Inl (Panic ''Current called outside sequence''))
   \<and> Current (Sequence_Iterator (genericArraySequence array)) = Inl IndexOutOfRange
   \<and> (\<forall>index i'. - 1 \<le> index \<and> index < int (length array) \<and>
         Next (genericArrayIterator array index) = Inr (False, i') \<longrightarrow>
         Current i' = (if array = [] then Inl IndexOutOfRange else Inr (last array)))
   \<and> (MapIter_contract Key MapIter_Next' fresh \<longrightarrow>
         (\<exists>p. mapIterator_Current Key Value fresh = Inl p)
         \<and> (\<forall>m m'. mapIterator_Next MapIter_Next' m = Inr (False, m') \<longrightarrow>
               (\<exists>p. mapIterator_Current Key Value m' = Inl p)))"
proof -
  have a: "Current (Sequence_Iterator (functionSequence sf)) = Inl (Panic ''Current called outside sequence'')"
    by simp
  have b: "\<forall>f cur valid i'. Next (functionIterator f cur valid) = Inr (False, i') \<longrightarrow>
         Current i' = Inl (Panic ''Current called outside sequence'')"
    by (intro allI impI) (rule functionIterator_exhausted_Current)
  have c: "Current (Sequence_Iterator (genericArraySequence array)) = Inl IndexOutOfRange"
    by simp
  have d: "\<forall>index i'. - 1 \<le> index \<and> index < int (length array) \<and>
         Next (genericArrayIterator array index) = Inr (False, i') \<longrightarrow>
         Current i' = (if array = [] then Inl IndexOutOfRange else Inr (last array))"
  proof (intro allI impI)
    fix index i'
    assume h: "- 1 \<le> index \<and> index < int (length array) \<and>
      Next (genericArrayIterator array index) = Inr (False, i')"
    show "Current i' = (if array = [] then Inl IndexOutOfRange else Inr (last array))"
      by (rule genericArrayIterator_exhausted_Current [of array index i']) (use h in simp_all)
  qed
  have e: "MapIter_contract Key MapIter_Next' fresh \<longrightarrow>
         (\<exists>p. mapIterator_Current Key Value fresh = Inl p)
         \<and> (\<forall>m m'. mapIterator_Next MapIter_Next' m = Inr (False, m') \<longrightarrow>
               (\<exists>p. mapIterator_Current Key Value m' = Inl p))"
  proof
    assume k: "MapIter_contract Key MapIter_Next' fresh"
    then obtain p where "Key fresh = Inl p" unfolding MapIter_contract_def by blast
    then have "mapIterator_Current Key Value fresh = Inl p"
      by (rule mapIterator_Current_Key_panics)
    then have e1: "\<exists>p. mapIterator_Current Key Value fresh = Inl p" ..
    have e2: "\<forall>m m'. mapIterator_Next MapIter_Next' m = Inr (False, m') \<longrightarrow>
               (\<exists>p. mapIterator_Current Key Value m' = Inl p)"
    proof (intro allI impI)
      fix m m'
      assume "mapIterator_Next MapIter_Next' m = Inr (False, m')"
      then have "MapIter_Next' m = Inr (False, m')" by (simp add: mapIterator_Next_def)
      with k obtain q where "Key m' = Inl q" unfolding MapIter_contract_def by blast
      then have "mapIterator_Current Key Value m' = Inl q"
        by (rule mapIterator_Current_Key_panics)
      then show "\<exists>p. mapIterator_Current Key Value m' = Inl p" ..
    qed
    from e1 e2 show "(\<exists>p. mapIterator_Current Key Value fresh = Inl p)
         \<and> (\<forall>m m'. mapIterator_Next MapIter_Next' m = Inr (False, m') \<longrightarrow>
               (\<exists>p. mapIterator_Current Key Value m' = Inl p))" ..
  qed
  show ?thesis by (intro conjI a b c d e)
qed

theorem Current_out_of_protocol_witness:
  "Next (functionIterator (IteratorFunc (Inr None)) (Some (5::int)) True)
     = Inr (False, functionIterator (IteratorFunc (Inr None)) None False)
   \<and> Current (functionIterator (IteratorFunc (Inr None)) (None :: int option) False)
     = Inl (Panic ''Current called outside sequence'')
   \<and> Next (genericArrayIterator [3, 7 :: int] 1) = Inr (False, genericArrayIterator [3, 7] 1)
   \<and> Current (genericArrayIterator [3, 7 :: int] 1) = Inr 7
   \<and> MapIter_contract (MapIter_Key :: (int, bool) MapIter \<Rightarrow> _) MapIter_Next
        (NotStarted [(1, True)])
   \<and> mapIterator_Next MapIter_Next (At (1 :: int, True) []) = Inr (False, Exhausted)
   \<and> (\<exists>p. mapIterator_Current MapIter_Key MapIter_Value
          (NotStarted [(1 :: int, True)]) = Inl p)
   \<and> (\<exists>p. mapIterator_Current MapIter_Key MapIter_Value
          (Exhausted :: (int, bool) MapIter) = Inl p)
   \<and> mapIterator_Current MapIter_Key MapIter_Value (Exhausted :: (int, bool) MapIter)
       = Inl (Panic ''MapIter.Key called on exhausted iterator'')"
proof -
  have n1: "Next (functionIterator (IteratorFunc (Inr None)) (Some (5::int)) True)
     = Inr (False, functionIterator (IteratorFunc (Inr None)) None False)"
    by simp
  have n2: "Next (genericArrayIterator [3, 7 :: int] 1) = Inr (False, genericArrayIterator [3, 7] 1)"
    by simp
  note inst = Current_out_of_protocol [where array = "[3, 7 :: int]"
      and Key = "MapIter_Key :: (int, bool) MapIter \<Rightarrow> _" and Value = MapIter_Value
      and MapIter_Next' = MapIter_Next and fresh = "NotStarted [(1, True)]"]
  have "\<forall>f cur valid i'. Next (functionIterator f cur valid) = Inr (False, i') \<longrightarrow>
         Current (i' :: int Iterator) = Inl (Panic ''Current called outside sequence'')"
    by (rule inst [THEN conjunct2, THEN conjunct1])
  with n1 have c1: "Current (functionIterator (IteratorFunc (Inr None)) (None :: int option) False)
     = Inl (Panic ''Current called outside sequence'')"
    by (elim allE impE)
  have "\<forall>index i'. - 1 \<le> index \<and> index < int (length [3, 7 :: int]) \<and>
         Next (genericArrayIterator [3, 7 :: int] index) = Inr (False, i') \<longrightarrow>
         Current i' = (if [3, 7 :: int] = [] then Inl IndexOutOfRange else Inr (last [3, 7 :: int]))"
    by (rule inst [THEN conjunct2, THEN conjunct2, THEN conjunct2, THEN conjunct1])
  then have "- 1 \<le> (1::int) \<and> 1 < int (length [3, 7 :: int]) \<and>
         Next (genericArrayIterator [3, 7 :: int] 1) = Inr (False, genericArrayIterator [3, 7] 1) \<longrightarrow>
         Current (genericArrayIterator [3, 7 :: int] 1)
           = (if [3, 7 :: int] = [] then Inl IndexOutOfRange else Inr (last [3, 7 :: int]))"
    by (elim allE)
  then have c2: "Current (genericArrayIterator [3, 7 :: int] 1) = Inr 7"
    by simp
  have k: "MapIter_contract (MapIter_Key :: (int, bool) MapIter \<Rightarrow> _) MapIter_Next
        (NotStarted [(1, True)])"
    by (rule MapIter_meets_contract)
  have n3: "mapIterator_Next MapIter_Next (At (1 :: int, True) []) = Inr (False, Exhausted)"
    by (simp add: mapIterator_Next_def)
  note mp5 = inst [THEN conjunct2, THEN conjunct2, THEN conjunct2, THEN conjunct2, THEN mp, OF k]
  have m1: "\<exists>p. mapIterator_Current MapIter_Key MapIter_Value
          (NotStarted [(1 :: int, True)]) = Inl p"
    by (rule mp5 [THEN conjunct1])
  have m2: "\<exists>p. mapIterator_Current MapIter_Key MapIter_Value
          (Exhausted :: (int, bool) MapIter) = Inl p"
    by (rule mp5 [THEN conjunct2, THEN spec, THEN spec, THEN mp, OF n3])
  have m3: "mapIterator_Current MapIter_Key MapIter_Value (Exhausted :: (int, bool) MapIter)
       = Inl (Panic ''MapIter.Key called on exhausted iterator'')"
    by (simp add: mapIterator_Current_def)
  show ?thesis
    by (rule conjI [OF n1 conjI [OF c1 conjI [OF n2 conjI [OF c2 conjI [OF k conjI [OF n3
          conjI [OF m1 conjI [OF m2 m3]]]]]]]])
qed

text \<open>
  The claim as stated fails on the slice \<open>[7]\<close>: the first \<open>Next\<close> returns true, the
  second returns false, and \<open>Current\<close> then returns 7 without any panic.
\<close>

theorem Current_after_exhaustion_counterexample:
  "Sequence_Iterator (genericArraySequence [7 :: int]) = genericArrayIterator [7] (- 1)
   \<and> Next (genericArrayIterator [7 :: int] (- 1)) = Inr (True, genericArrayIterator [7] 0)
   \<and> Next (genericArrayIterator [7 :: int] 0) = Inr (False, genericArrayIterator [7] 0)
   \<and> Current (genericArrayIterator [7 :: int] 0) = Inr 7"
  by simp

subsection \<open>C3: Union\<close>

text \<open>
  C3, as the code has it. With at least one argument sequence, \<open>Union\<close> is \<open>Distinct\<close> of
  \<open>Concat\<close>, so it yields the same items in the same order, or panics as it does.
  \<open>Concat\<close> yields the items of the receiver followed by those of the arguments; when
  these are \<open>xs\<close>, every item of \<open>xs\<close> can be hashed and Go's \<^verbatim>\<open>==\<close> is transitive, \<open>Union\<close>
  yields the first occurrence of every item of \<open>xs\<close>, in that order, and when some item of
  \<open>xs\<close> cannot be hashed \<open>Union\<close> panics. With no argument sequence \<open>Union\<close> returns the
  receiver itself, so duplicates of the receiver stay.
\<close>

theorem Union_linq_Distinct_Concat:
  "(As \<noteq> [] \<longrightarrow> Union_linq hashable key_eq S As = Distinct hashable key_eq (Concat S As))
   \<and> Union_linq hashable key_eq S [] = S
   \<and> ToSlice (Concat S As) = ToSlice_all (S # As)
   \<and> (\<forall>xs. As \<noteq> [] \<and> ToSlice_all (S # As) = Inr xs \<and> (\<forall>x\<in>set xs. hashable x)
          \<and> (\<forall>a b c. key_eq a b \<and> key_eq b c \<longrightarrow> key_eq a c) \<longrightarrow>
          ToSlice (Union_linq hashable key_eq S As) = Inr (first_occurrences key_eq xs))
   \<and> (\<forall>xs. As \<noteq> [] \<and> ToSlice_all (S # As) = Inr xs \<and> (\<exists>x\<in>set xs. \<not> hashable x) \<longrightarrow>
          ToSlice (Union_linq hashable key_eq S As) = Inl UnhashableKey)"
proof -
  have ne: "As \<noteq> [] \<longrightarrow> Union_linq hashable key_eq S As = Distinct hashable key_eq (Concat S As)"
    by (simp add: Union_linq_def)
  have emp: "Union_linq hashable key_eq S [] = S"
    by (simp add: Union_linq_def)
  have cc: "ToSlice (Concat S As) = ToSlice_all (S # As)"
    by (rule ToSlice_Concat)
  have fo: "\<forall>xs. As \<noteq> [] \<and> ToSlice_all (S # As) = Inr xs \<and> (\<forall>x\<in>set xs. hashable x)
          \<and> (\<forall>a b c. key_eq a b \<and> key_eq b c \<longrightarrow> key_eq a c) \<longrightarrow>
          ToSlice (Union_linq hashable key_eq S As) = Inr (first_occurrences key_eq xs)"
  proof (intro allI impI)
    fix xs
    assume h: "As \<noteq> [] \<and> ToSlice_all (S # As) = Inr xs \<and> (\<forall>x\<in>set xs. hashable x)
          \<and> (\<forall>a b c. key_eq a b \<and> key_eq b c \<longrightarrow> key_eq a c)"
    then have src: "ToSlice (Concat S As) = Inr xs" by (simp only: cc)
    from h have "\<And>a b c. key_eq a b \<Longrightarrow> key_eq b c \<Longrightarrow> key_eq a c" by blast
    then have "distinct_from key_eq {} xs = first_occurrences key_eq xs"
      by (rule distinct_from_first_occurrences)
    with h ne show "ToSlice (Union_linq hashable key_eq S As) = Inr (first_occurrences key_eq xs)"
      by (simp add: ToSlice_Distinct [OF src])
  qed
  have un: "\<forall>xs. As \<noteq> [] \<and> ToSlice_all (S # As) = Inr xs \<and> (\<exists>x\<in>set xs. \<not> hashable x) \<longrightarrow>
          ToSlice (Union_linq hashable key_eq S As) = Inl UnhashableKey"
  proof (intro allI impI)
    fix xs
    assume h: "As \<noteq> [] \<and> ToSlice_all (S # As) = Inr xs \<and> (\<exists>x\<in>set xs. \<not> hashable x)"
    then have src: "ToSlice (Concat S As) = Inr xs" by (simp only: cc)
    from h ne show "ToSlice (Union_linq hashable key_eq S As) = Inl UnhashableKey"
      by (auto simp: ToSlice_Distinct [OF src])
  qed
  show ?thesis by (rule conjI [OF ne conjI [OF emp conjI [OF cc conjI [OF fo un]]]])
qed

theorem Union_linq_Distinct_Concat_witness:
  "[From [3, 2 :: int], From [4, 1]] \<noteq> []
   \<and> ToSlice_all [From [1, 2, 1 :: int], From [3, 2], From [4, 1]] = Inr [1, 2, 1, 3, 2, 4, 1]
   \<and> ToSlice (Union_linq (\<lambda>k. True) (=) (From [1, 2, 1 :: int]) [From [3, 2], From [4, 1]])
       = Inr [1, 2, 3, 4]
   \<and> first_occurrences (=) [1, 2, 1, 3, 2, 4, 1 :: int] = [1, 2, 3, 4]"
proof -
  let ?S = "From [1, 2, 1 :: int]" and ?As = "[From [3, 2 :: int], From [4, 1]]"
  have ne: "?As \<noteq> []" by simp
  have all: "ToSlice_all (?S # ?As) = Inr [1, 2, 1, 3, 2, 4, 1]"
    by (simp add: From_def ToSlice_array)
  note inst = Union_linq_Distinct_Concat [where As = ?As and S = ?S
      and hashable = "\<lambda>k. True" and key_eq = "(=)"]
  have src: "ToSlice (Concat ?S ?As) = Inr [1, 2, 1, 3, 2, 4, 1]"
    using inst [THEN conjunct2, THEN conjunct2, THEN conjunct1] all by simp
  from inst [THEN conjunct1] ne
  have "Union_linq (\<lambda>k. True) (=) ?S ?As = Distinct (\<lambda>k. True) (=) (Concat ?S ?As)"
    by (rule mp)
  then have u: "ToSlice (Union_linq (\<lambda>k. True) (=) ?S ?As) = Inr [1, 2, 3, 4]"
    by (simp add: ToSlice_Distinct [OF src])
  have hyp: "?As \<noteq> [] \<and> ToSlice_all (?S # ?As) = Inr [1, 2, 1, 3, 2, 4, 1]
      \<and> (\<forall>x\<in>set [1, 2, 1, 3, 2, 4, 1 :: int]. True)
      \<and> (\<forall>a b c :: int. a = b \<and> b = c \<longrightarrow> a = c)"
    using all by simp
  from inst [THEN conjunct2, THEN conjunct2, THEN conjunct2, THEN conjunct1, THEN spec,
      THEN mp, OF hyp] u
  have fo: "first_occurrences (=) [1, 2, 1, 3, 2, 4, 1 :: int] = [1, 2, 3, 4]"
    by simp
  show ?thesis by (rule conjI [OF ne conjI [OF all conjI [OF u fo]]])
qed

text \<open>
  The claim as stated fails on the receiver \<open>[1, 1]\<close> with no argument sequence: \<open>Union\<close>
  yields \<open>[1, 1]\<close>, \<open>Distinct\<close> of the concatenation yields \<open>[1]\<close>.
\<close>

theorem Union_linq_no_arguments_counterexample:
  "ToSlice (Union_linq (\<lambda>k. True) (=) (From [1, 1 :: int]) []) = Inr [1, 1]
   \<and> ToSlice (Distinct (\<lambda>k. True) (=) (Concat (From [1, 1 :: int]) [])) = Inr [1]"
proof -
  have src: "ToSlice (Concat (From [1, 1 :: int]) []) = Inr [1, 1]"
    by (simp add: Concat_def From_def ToSlice_array)
  have u: "ToSlice (Union_linq (\<lambda>k. True) (=) (From [1, 1 :: int]) []) = Inr [1, 1]"
    by (simp add: Union_linq_def From_def ToSlice_array)
  have d: "ToSlice (Distinct (\<lambda>k. True) (=) (Concat (From [1, 1 :: int]) [])) = Inr [1]"
    by (simp add: ToSlice_Distinct [OF src])
  show ?thesis by (rule conjI [OF u d])
qed

subsection \<open>C6: ParallelSelect with one thread\<close>

text \<open>
  C6: with \<open>maxThreads = 1\<close>, \<open>ParallelSelect\<close> returns \<open>Select selector s\<close>, whose
  iteration yields the selector applied to each item of \<open>s\<close>, in the order of \<open>s\<close>.
\<close>

theorem ParallelSelect_one_thread:
  "ParallelSelect NumCPU pool 1 selector s = Inr (Select selector s)
   \<and> ToSlice (Select selector s) = map_result (map selector) (ToSlice s)"
  by (simp add: ParallelSelect_def ToSlice_Select)

theorem ParallelSelect_one_thread_witness:
  "ParallelSelect 8 (\<lambda>n f s. s) 1 (\<lambda>x. x + 1) (From [0, 1, 2 :: int])
     = Inr (Select (\<lambda>x. x + 1) (From [0, 1, 2]))
   \<and> ToSlice (Select (\<lambda>x. x + 1) (From [0, 1, 2 :: int])) = Inr [1, 2, 3]"
  using ParallelSelect_one_thread [of 8 "\<lambda>n f s. s" "\<lambda>x. x + 1" "From [0, 1, 2 :: int]"]
  by (simp add: From_def ToSlice_array)

subsection \<open>C7: Distinct\<close>

text \<open>
  Three kinds of values that a Go \<^verbatim>\<open>interface{}\<close> can hold, to instantiate the two
  parameters: an \<^verbatim>\<open>int\<close>, the \<^verbatim>\<open>float64\<close> NaN, and a slice \<^verbatim>\<open>[]int\<close>. A slice cannot be
  hashed; two ints are equal when they are the same number; the NaN equals nothing.
\<close>

datatype go_key = IntKey int | NaNKey | SliceKey "int list"

fun go_hashable :: "go_key \<Rightarrow> bool" where
  "go_hashable (SliceKey xs) = False"
| "go_hashable k = True"

fun go_eq :: "go_key \<Rightarrow> go_key \<Rightarrow> bool" where
  "go_eq (IntKey a) (IntKey b) = (a = b)"
| "go_eq a b = False"

lemma go_eq_trans: "go_eq a b \<Longrightarrow> go_eq b c \<Longrightarrow> go_eq a c"
  by (cases a; cases b; cases c) simp_all

text \<open>
  C7, as the code has it. Let the source yield \<open>xs\<close> without a panic. If every item of
  \<open>xs\<close> can be hashed, \<open>Distinct\<close> yields a slice \<open>ys\<close> of items of \<open>xs\<close> in which every item of
  \<open>xs\<close> is present or has an earlier-kept equal, and in which no item equals a later one:
  one representative for each key. When Go's \<^verbatim>\<open>==\<close> is transitive \<open>ys\<close> is
  \<open>first_occurrences\<close>: the item at position \<open>i\<close> of \<open>xs\<close> is kept exactly when no earlier
  item equals it, in the order of \<open>xs\<close>. If some item of \<open>xs\<close> cannot be hashed, \<open>Distinct\<close>
  panics with the run time's panic for such a key. If the source panics, so does
  \<open>Distinct\<close>. In every case \<open>Distinct\<close> of \<open>Distinct\<close> yields what \<open>Distinct\<close> yields, or
  panics as it does.
\<close>

theorem Distinct_first_occurrences:
  "(\<forall>xs. ToSlice s = Inr xs \<and> (\<forall>x\<in>set xs. hashable x) \<longrightarrow>
      (\<exists>ys. ToSlice (Distinct hashable key_eq s) = Inr ys
         \<and> ((\<forall>a b c. key_eq a b \<and> key_eq b c \<longrightarrow> key_eq a c) \<longrightarrow>
              ys = first_occurrences key_eq xs)
         \<and> set ys \<subseteq> set xs
         \<and> (\<forall>x\<in>set xs. x \<in> set ys \<or> (\<exists>y\<in>set ys. key_eq y x))
         \<and> (\<forall>i j. i < j \<and> j < length ys \<longrightarrow> \<not> key_eq (ys ! i) (ys ! j))))
   \<and> (\<forall>xs. ToSlice s = Inr xs \<and> (\<exists>x\<in>set xs. \<not> hashable x) \<longrightarrow>
         ToSlice (Distinct hashable key_eq s) = Inl UnhashableKey)
   \<and> (\<forall>p. ToSlice s = Inl p \<longrightarrow> (\<exists>q. ToSlice (Distinct hashable key_eq s) = Inl q))
   \<and> ToSlice (Distinct hashable key_eq (Distinct hashable key_eq s))
       = ToSlice (Distinct hashable key_eq s)"
proof -
  have a: "\<forall>xs. ToSlice s = Inr xs \<and> (\<forall>x\<in>set xs. hashable x) \<longrightarrow>
      (\<exists>ys. ToSlice (Distinct hashable key_eq s) = Inr ys
         \<and> ((\<forall>a b c. key_eq a b \<and> key_eq b c \<longrightarrow> key_eq a c) \<longrightarrow>
              ys = first_occurrences key_eq xs)
         \<and> set ys \<subseteq> set xs
         \<and> (\<forall>x\<in>set xs. x \<in> set ys \<or> (\<exists>y\<in>set ys. key_eq y x))
         \<and> (\<forall>i j. i < j \<and> j < length ys \<longrightarrow> \<not> key_eq (ys ! i) (ys ! j)))"
  proof (intro allI impI)
    fix xs
    assume h: "ToSlice s = Inr xs \<and> (\<forall>x\<in>set xs. hashable x)"
    let ?ys = "distinct_from key_eq {} xs"
    from h have r: "ToSlice (Distinct hashable key_eq s) = Inr ?ys"
      by (simp add: ToSlice_Distinct)
    have fo: "(\<forall>a b c. key_eq a b \<and> key_eq b c \<longrightarrow> key_eq a c) \<longrightarrow>
        ?ys = first_occurrences key_eq xs"
    proof
      assume "\<forall>a b c. key_eq a b \<and> key_eq b c \<longrightarrow> key_eq a c"
      then have "\<And>a b c. key_eq a b \<Longrightarrow> key_eq b c \<Longrightarrow> key_eq a c" by blast
      then show "?ys = first_occurrences key_eq xs" by (rule distinct_from_first_occurrences)
    qed
    have sub: "set ?ys \<subseteq> set xs" by (rule set_distinct_from)
    have rep: "\<forall>x\<in>set xs. x \<in> set ?ys \<or> (\<exists>y\<in>set ?ys. key_eq y x)"
      using distinct_from_represents [of _ xs key_eq "{}"] by simp
    have pw: "\<forall>i j. i < j \<and> j < length ?ys \<longrightarrow> \<not> key_eq (?ys ! i) (?ys ! j)"
      using distinct_from_pairwise [of _ _ key_eq "{}" xs] by blast
    from r fo sub rep pw
    show "\<exists>ys. ToSlice (Distinct hashable key_eq s) = Inr ys
         \<and> ((\<forall>a b c. key_eq a b \<and> key_eq b c \<longrightarrow> key_eq a c) \<longrightarrow>
              ys = first_occurrences key_eq xs)
         \<and> set ys \<subseteq> set xs
         \<and> (\<forall>x\<in>set xs. x \<in> set ys \<or> (\<exists>y\<in>set ys. key_eq y x))
         \<and> (\<forall>i j. i < j \<and> j < length ys \<longrightarrow> \<not> key_eq (ys ! i) (ys ! j))"
      by blast
  qed
  have b: "\<forall>xs. ToSlice s = Inr xs \<and> (\<exists>x\<in>set xs. \<not> hashable x) \<longrightarrow>
         ToSlice (Distinct hashable key_eq s) = Inl UnhashableKey"
    by (auto simp: ToSlice_Distinct)
  have c: "\<forall>p. ToSlice s = Inl p \<longrightarrow> (\<exists>q. ToSlice (Distinct hashable key_eq s) = Inl q)"
    by (intro allI impI) (rule ToSlice_Distinct_panics)
  have d: "ToSlice (Distinct hashable key_eq (Distinct hashable key_eq s))
       = ToSlice (Distinct hashable key_eq s)"
    by (rule ToSlice_Distinct_Distinct)
  show ?thesis by (rule conjI [OF a conjI [OF b conjI [OF c d]]])
qed

theorem Distinct_first_occurrences_witness:
  "ToSlice (From [IntKey 2, IntKey 1, NaNKey, IntKey 2, NaNKey, IntKey 1])
     = Inr [IntKey 2, IntKey 1, NaNKey, IntKey 2, NaNKey, IntKey 1]
   \<and> list_all go_hashable [IntKey 2, IntKey 1, NaNKey, IntKey 2, NaNKey, IntKey 1]
   \<and> ToSlice (Distinct go_hashable go_eq
        (From [IntKey 2, IntKey 1, NaNKey, IntKey 2, NaNKey, IntKey 1]))
       = Inr [IntKey 2, IntKey 1, NaNKey, NaNKey]
   \<and> first_occurrences go_eq [IntKey 2, IntKey 1, NaNKey, IntKey 2, NaNKey, IntKey 1]
       = [IntKey 2, IntKey 1, NaNKey, NaNKey]
   \<and> ToSlice (Distinct go_hashable go_eq (Distinct go_hashable go_eq
        (From [IntKey 2, IntKey 1, NaNKey, IntKey 2, NaNKey, IntKey 1])))
       = Inr [IntKey 2, IntKey 1, NaNKey, NaNKey]"
proof -
  let ?xs = "[IntKey 2, IntKey 1, NaNKey, IntKey 2, NaNKey, IntKey 1]"
  have src: "ToSlice (From ?xs) = Inr ?xs" by (simp add: From_def ToSlice_array)
  have hs: "list_all go_hashable ?xs" by simp
  have hyp: "ToSlice (From ?xs) = Inr ?xs \<and> (\<forall>x\<in>set ?xs. go_hashable x)"
    using src by simp
  have tr: "\<forall>a b c. go_eq a b \<and> go_eq b c \<longrightarrow> go_eq a c" using go_eq_trans by blast
  note inst = Distinct_first_occurrences [where s = "From ?xs" and hashable = go_hashable
      and key_eq = go_eq]
  have d: "ToSlice (Distinct go_hashable go_eq (From ?xs))
      = Inr [IntKey 2, IntKey 1, NaNKey, NaNKey]"
    by (simp add: ToSlice_Distinct [OF src])
  from inst [THEN conjunct1, THEN spec, THEN mp, OF hyp] obtain ys where
    ys: "ToSlice (Distinct go_hashable go_eq (From ?xs)) = Inr ys"
    and yf: "(\<forall>a b c. go_eq a b \<and> go_eq b c \<longrightarrow> go_eq a c) \<longrightarrow> ys = first_occurrences go_eq ?xs"
    by blast
  from yf tr have "ys = first_occurrences go_eq ?xs" by (rule mp)
  moreover from ys d have "ys = [IntKey 2, IntKey 1, NaNKey, NaNKey]" by simp
  ultimately have fo: "first_occurrences go_eq ?xs = [IntKey 2, IntKey 1, NaNKey, NaNKey]"
    by simp
  from inst [THEN conjunct2, THEN conjunct2, THEN conjunct2] d
  have dd: "ToSlice (Distinct go_hashable go_eq (Distinct go_hashable go_eq (From ?xs)))
      = Inr [IntKey 2, IntKey 1, NaNKey, NaNKey]"
    by simp
  show ?thesis by (rule conjI [OF src conjI [OF hs conjI [OF d conjI [OF fo dd]]]])
qed

text \<open>
  The claim as stated, for every finite sequence, fails on a sequence that holds a slice:
  \<^verbatim>\<open>set.tryAdd\<close> indexes a map with the item, and the run time panics on a key that cannot
  be hashed.
\<close>

theorem Distinct_unhashable_counterexample:
  "ToSlice (From [SliceKey [1], SliceKey [1]]) = Inr [SliceKey [1], SliceKey [1]]
   \<and> ToSlice (Distinct go_hashable go_eq (From [SliceKey [1], SliceKey [1]]))
       = Inl UnhashableKey"
proof -
  have src: "ToSlice (From [SliceKey [1], SliceKey [1]]) = Inr [SliceKey [1], SliceKey [1]]"
    by (simp add: From_def ToSlice_array)
  then show ?thesis by (simp add: ToSlice_Distinct [OF src])
qed

subsection \<open>C10: Aggregate on one item\<close>

fun calls_of :: "('a \<Rightarrow> 'a \<Rightarrow> 'a) \<Rightarrow> 'a \<Rightarrow> 'a list \<Rightarrow> ('a \<times> 'a) list" where
  "calls_of agg v [] = []"
| "calls_of agg v (x # xs) = (v, x) # calls_of agg (agg v x) xs"

lemma TryAggregate_loop_drain:
  "TryAggregate_loop agg i v calls =
     map_result (\<lambda>xs. (foldl agg v xs, calls @ calls_of agg v xs)) (drain i)"
proof (induction agg i v calls rule: TryAggregate_loop.induct)
  case (1 agg i v calls)
  show ?case
    by (subst TryAggregate_loop.simps, subst drain.simps)
       (auto simp: "1.IH" map_result_comp intro!: map_result_cong split: sum.splits prod.splits)
qed

lemma TryAggregate_ToSlice:
  "TryAggregate agg s =
     map_result (\<lambda>xs. case xs of [] \<Rightarrow> (None, [])
                      | x # rest \<Rightarrow> (Some (foldl agg x rest), calls_of agg x rest)) (ToSlice s)"
proof (cases "Next (Sequence_Iterator s)")
  case (Inl p)
  then show ?thesis
    unfolding TryAggregate_def ToSlice_drain Let_def by (subst drain.simps) simp
next
  case (Inr r)
  obtain ok i' where r: "r = (ok, i')" by (cases r)
  show ?thesis
  proof (cases ok)
    case False
    with Inr r show ?thesis
      unfolding TryAggregate_def ToSlice_drain Let_def by (subst drain.simps) simp
  next
    case True
    show ?thesis
    proof (cases "Current i'")
      case (Inl p)
      with \<open>Next (Sequence_Iterator s) = Inr r\<close> r True show ?thesis
        unfolding TryAggregate_def ToSlice_drain Let_def by (subst drain.simps) simp
    next
      case (Inr v)
      with \<open>Next (Sequence_Iterator s) = Inr r\<close> r True show ?thesis
        unfolding TryAggregate_def ToSlice_drain Let_def
        by (subst drain.simps, cases "drain i'") (simp_all add: TryAggregate_loop_drain)
    qed
  qed
qed

text \<open>
  C10: on a sequence of exactly one item \<open>TryAggregate\<close> and \<open>Aggregate\<close> return that item
  and the aggregator is never called; on a sequence of two or more items the first call
  of the aggregator receives the first two items (and the result is the left fold); on
  the empty sequence the aggregator is not called either, \<open>TryAggregate\<close> answers
  \<^verbatim>\<open>(nil, false)\<close> and \<open>Aggregate\<close> panics with \<open>emptyError\<close>.
\<close>

theorem Aggregate_calls:
  "(ToSlice s = Inr [x] \<longrightarrow>
      TryAggregate agg s = Inr (Some x, []) \<and> Aggregate agg s = Inr (x, []))
   \<and> (ToSlice s = Inr (x # y # rest) \<longrightarrow>
        (\<exists>calls. TryAggregate agg s = Inr (Some (foldl agg (agg x y) rest), (x, y) # calls)
               \<and> Aggregate agg s = Inr (foldl agg (agg x y) rest, (x, y) # calls)))
   \<and> (ToSlice s = Inr [] \<longrightarrow>
        TryAggregate agg s = Inr (None, []) \<and> Aggregate agg s = Inl emptyError)"
  by (simp add: TryAggregate_ToSlice Aggregate_def)

theorem Aggregate_calls_witness:
  "ToSlice (From [5 :: int]) = Inr [5]
   \<and> TryAggregate (+) (From [5 :: int]) = Inr (Some 5, [])
   \<and> Aggregate (+) (From [5 :: int]) = Inr (5, [])
   \<and> ToSlice (From [1, 2, 4 :: int]) = Inr [1, 2, 4]
   \<and> Aggregate (+) (From [1, 2, 4 :: int]) = Inr (7, [(1, 2), (3, 4)])"
proof -
  have one: "ToSlice (From [5 :: int]) = Inr [5]"
    and three: "ToSlice (From [1, 2, 4 :: int]) = Inr [1, 2, 4]"
    by (simp_all add: From_def ToSlice_array)
  from Aggregate_calls [where s = "From [5 :: int]" and x = 5 and agg = "(+)", THEN conjunct1] one
  have a: "TryAggregate (+) (From [5 :: int]) = Inr (Some 5, [])"
    and b: "Aggregate (+) (From [5 :: int]) = Inr (5, [])"
    by simp_all
  have c: "Aggregate (+) (From [1, 2, 4 :: int]) = Inr (7, [(1, 2), (3, 4)])"
    using three by (simp add: TryAggregate_ToSlice Aggregate_def)
  show ?thesis by (intro conjI one a b three c)
qed

subsection \<open>C9: MergeP on the test's two sequences\<close>

text \<open>
  C9: \<open>MergeP\<close> of \<open>[1,3,5,6,7,10]\<close> and \<open>[2,4,5,7,9]\<close> under \<open>IntLessThanFunc\<close> with
  \<open>leftOnly = MergeKeep\<close>, \<open>rightOnly = nil\<close> and \<open>both = MergeKeepRight\<close> yields
  \<open>[1,3,5,6,7,10]\<close>.
\<close>

theorem MergeP_keep_nil_keepRight:
  "ToSlice (MergeP GenericLessThan (From [1, 3, 5, 6, 7, 10]) (From [2, 4, 5, 7, 9])
      (Some IntLessThanFunc) (Some MergeKeep) None (Some MergeKeepRight))
   = Inr [1, 3, 5, 6, 7, 10]"
  by code_simp

subsection \<open>C8: GroupBy on 0..9 keyed by i / 4\<close>

text \<open>
  Specification side: \<open>group_of\<close> is the items with a given key, in the order of the
  source, each mapped by the value selector; \<open>groups_after\<close> is the map \<open>m\<close> after the
  loop has added the items \<open>xs\<close>.
\<close>

definition group_of :: "('a \<Rightarrow> 'k) \<Rightarrow> ('a \<Rightarrow> 'a) option \<Rightarrow> 'a list \<Rightarrow> 'k \<Rightarrow> 'a list" where
  "group_of keySelector valueSelector xs k =
     map (case valueSelector of None \<Rightarrow> (\<lambda>v. v) | Some sel \<Rightarrow> sel) (filter (\<lambda>v. keySelector v = k) xs)"

definition groups_after :: "('a \<Rightarrow> 'k) \<Rightarrow> ('a \<Rightarrow> 'a) option \<Rightarrow> ('k \<rightharpoonup> 'a list) \<Rightarrow> 'a list \<Rightarrow> ('k \<rightharpoonup> 'a list)" where
  "groups_after keySelector valueSelector m xs =
     (\<lambda>k. case m k of
             Some list \<Rightarrow> Some (list @ group_of keySelector valueSelector xs k)
           | None \<Rightarrow> if \<exists>v \<in> set xs. keySelector v = k
                     then Some (group_of keySelector valueSelector xs k) else None)"

lemma groups_after_Nil: "groups_after ks vs m [] = m"
  by (auto simp: groups_after_def group_of_def split: option.splits)

lemma groups_after_Cons:
  "groups_after ks vs m (v # xs) =
     groups_after ks vs (case m (ks v) of
                 Some list \<Rightarrow> m(ks v \<mapsto> list @ [case vs of None \<Rightarrow> v | Some sel \<Rightarrow> sel v])
               | None \<Rightarrow> m(ks v \<mapsto> [case vs of None \<Rightarrow> v | Some sel \<Rightarrow> sel v])) xs"
  by (rule ext) (auto simp: groups_after_def group_of_def split: option.splits)

lemma GroupByKV_loop_drain:
  "GroupByKV_loop ks vs i m = map_result (groups_after ks vs m) (drain i)"
proof (induction ks vs i m rule: GroupByKV_loop.induct)
  case (1 ks vs i m)
  show ?case
    by (subst GroupByKV_loop.simps, subst drain.simps)
       (auto simp: "1.IH" Let_def map_result_comp groups_after_Nil groups_after_Cons
             intro!: map_result_cong split: sum.splits prod.splits)
qed

lemma GroupByKV_ToSlice:
  "GroupByKV ks vs s =
     map_result (\<lambda>xs. genericMapSequence (\<lambda>k. map_option From (groups_after ks vs Map.empty xs k)))
       (ToSlice s)"
  by (cases "ToSlice s") (simp_all add: GroupByKV_def GroupByKV_loop_drain ToSlice_drain)

lemma ToSlice_Range_10: "ToSlice (Range_linq 10) = Inr [0, 1, 2, 3, 4, 5, 6, 7, 8, 9]"
  by code_simp

lemma set_MapRange:
  "set (MapRange order m) = {Pair k v | k v. k \<in> set order \<and> m k = Some v}"
  by (auto simp: MapRange_def split: option.splits)

lemma length_MapRange:
  "set order \<subseteq> dom m \<Longrightarrow> length (MapRange order m) = length order"
  by (induction order) (auto simp: MapRange_def split: option.splits)

text \<open>
  C8: \<open>GroupBy\<close> of \<open>Range(10)\<close> (the items 0 to 9 in order) with the key \<open>i / 4\<close> (on
  these non-negative items Go's truncating division is \<open>div\<close>) returns a map-backed
  sequence with exactly the keys 0, 1, 2, whose groups are the slice-backed sequences of
  \<open>[0,1,2,3]\<close>, \<open>[4,5,6,7]\<close> and \<open>[8,9]\<close>, the items in their original order; in whatever
  order the run-time visits the keys, iterating yields exactly these three pairs.
\<close>

theorem GroupBy_range_ten:
  "\<exists>seqs. GroupBy (\<lambda>i. i div 4) (Range_linq 10) = Inr (genericMapSequence seqs)
     \<and> dom seqs = {0, 1, 2}
     \<and> seqs 0 = Some (From [0, 1, 2, 3])
     \<and> seqs 1 = Some (From [4, 5, 6, 7])
     \<and> seqs 2 = Some (From [8, 9])
     \<and> (\<forall>order. distinct order \<and> set order = dom seqs \<longrightarrow>
           length (MapRange order seqs) = 3
           \<and> set (MapRange order seqs)
               = {Pair 0 (From [0, 1, 2, 3]), Pair 1 (From [4, 5, 6, 7]), Pair 2 (From [8, 9])})"
proof -
  define seqs :: "int \<rightharpoonup> int Sequence" where
    "seqs = (\<lambda>k. map_option From
               (groups_after (\<lambda>i. i div 4) None Map.empty [0, 1, 2, 3, 4, 5, 6, 7, 8, 9] k))"
  have res: "GroupBy (\<lambda>i. i div 4) (Range_linq 10) = Inr (genericMapSequence seqs)"
    by (simp add: GroupBy_def GroupByKV_ToSlice ToSlice_Range_10 seqs_def)
  have s0: "seqs 0 = Some (From [0, 1, 2, 3])"
    and s1: "seqs 1 = Some (From [4, 5, 6, 7])"
    and s2: "seqs 2 = Some (From [8, 9])"
    by (simp_all add: seqs_def groups_after_def group_of_def)
  have d: "dom seqs = {0, 1, 2}"
    by (auto simp: seqs_def groups_after_def dom_def split: if_splits)
  have ord: "length (MapRange order seqs) = 3
       \<and> set (MapRange order seqs)
           = {Pair 0 (From [0, 1, 2, 3]), Pair 1 (From [4, 5, 6, 7]), Pair 2 (From [8, 9])}"
    if h: "distinct order \<and> set order = dom seqs" for order
  proof
    from h d have so: "set order = {0, 1, 2}" by simp
    from h have "distinct order" by simp
    then have "length order = card (set order)" by (rule distinct_card [symmetric])
    also have "\<dots> = 3" by (simp add: so)
    finally show "length (MapRange order seqs) = 3"
      using h by (simp add: length_MapRange)
    show "set (MapRange order seqs)
           = {Pair 0 (From [0, 1, 2, 3]), Pair 1 (From [4, 5, 6, 7]), Pair 2 (From [8, 9])}"
      unfolding set_MapRange so using s0 s1 s2 by auto
  qed
  show ?thesis
    by (rule exI [of _ seqs]) (use res d s0 s1 s2 ord in blast)
qed

theorem GroupBy_range_ten_witness:
  "\<exists>seqs. GroupBy (\<lambda>i. i div 4) (Range_linq 10) = Inr (genericMapSequence seqs)
     \<and> distinct [2, 0, 1 :: int] \<and> set [2, 0, 1] = dom seqs
     \<and> MapRange [2, 0, 1] seqs
         = [Pair 2 (From [8, 9]), Pair 0 (From [0, 1, 2, 3]), Pair 1 (From [4, 5, 6, 7])]
     \<and> length (MapRange [2, 0, 1] seqs) = 3"
proof -
  from GroupBy_range_ten obtain seqs where
    res: "GroupBy (\<lambda>i. i div 4) (Range_linq 10) = Inr (genericMapSequence seqs)"
    and d: "dom seqs = {0, 1, 2}"
    and s: "seqs 0 = Some (From [0, 1, 2, 3])" "seqs 1 = Some (From [4, 5, 6, 7])"
      "seqs 2 = Some (From [8, 9])"
    and ord: "\<forall>order. distinct order \<and> set order = dom seqs \<longrightarrow>
           length (MapRange order seqs) = 3
           \<and> set (MapRange order seqs)
               = {Pair 0 (From [0, 1, 2, 3]), Pair 1 (From [4, 5, 6, 7]), Pair 2 (From [8, 9])}"
    by blast
  have h: "distinct [2, 0, 1 :: int] \<and> set [2, 0, 1] = dom seqs"
    using d by auto
  with ord have len: "length (MapRange [2, 0, 1] seqs) = 3" by blast
  have mr: "MapRange [2, 0, 1] seqs
         = [Pair 2 (From [8, 9]), Pair 0 (From [0, 1, 2, 3]), Pair 1 (From [4, 5, 6, 7])]"
    using s by (simp add: MapRange_def)
  show ?thesis
    by (rule exI [of _ seqs]) (use res h mr len in blast)
qed

subsection \<open>C5: Order gives a sorted permutation\<close>

text \<open>
  \<open>filled f c b\<close>: in state \<open>c\<close> the closure \<open>f\<close> replays the slice \<open>b\<close> and leaves the
  state as it is. The three closures are filled once their slice variable is set, and
  their first call sets it from the upstream.
\<close>

definition filled :: "('c, 'u, 'a) closure \<Rightarrow> 'c \<times> 'u \<Rightarrow> 'a list \<Rightarrow> bool" where
  "filled f c b \<longleftrightarrow> (\<forall>index. f c index = Some (fst (replay b index), c, snd (replay b index)))"

lemma ToSlice_loop_st_filled:
  assumes "filled f c b"
  shows "ToSlice_loop_st f c index acc = Some (Inr (acc @ drop index b), c)"
proof (induction "length b - index" arbitrary: index acc)
  case 0
  then have "\<not> index < length b" by simp
  with assms show ?case
    by (subst ToSlice_loop_st.simps) (simp add: filled_def replay_def)
next
  case (Suc n)
  then have lt: "index < length b" by simp
  have "ToSlice_loop_st f c (index + 1) (acc @ [b ! index])
      = Some (Inr ((acc @ [b ! index]) @ drop (index + 1) b), c)"
    using Suc by (intro Suc.hyps(1)) simp
  with lt assms show ?case
    by (subst ToSlice_loop_st.simps)
       (simp add: filled_def replay_def Cons_nth_drop_Suc)
qed

lemma ToSlice_st_filled: "filled f c b \<Longrightarrow> ToSlice_st f c = Some (Inr b, c)"
  by (simp add: ToSlice_st_def ToSlice_loop_st_filled)

lemma ToSlice_st_first:
  assumes first: "f c 0 = Some (fst (replay b 0), c', snd (replay b 0))"
    and "filled f c' b"
  shows "ToSlice_st f c = Some (Inr b, c')"
proof (cases b)
  case Nil
  with first show ?thesis
    unfolding ToSlice_st_def by (subst ToSlice_loop_st.simps) (simp add: replay_def)
next
  case (Cons x xs)
  with first assms(2) show ?thesis
    unfolding ToSlice_st_def
    by (subst ToSlice_loop_st.simps) (simp add: replay_def ToSlice_loop_st_filled)
qed



lemma OrderPD_filled: "items d = Some xs \<Longrightarrow> filled (OrderPD_func srt up reverse) (d, u) xs"
  by (simp add: filled_def OrderPD_func_def split: prod.splits)



lemma OrderPD_first:
  assumes "up u = Some (Inr xs, u')" and "items d = None"
    and "srt (if reverse then sort_Reverse orderData_Interface else orderData_Interface)
           (d\<lparr>items := Some xs\<rparr>) = (None, d2)"
  shows "OrderPD_func srt up reverse (d, u) index =
     Some (fst (replay (slice (items d2)) index), (d2, u'), snd (replay (slice (items d2)) index))"
  using assms by (simp add: OrderPD_func_def Let_def split: prod.splits)

text \<open>
  What the development asks of \<^verbatim>\<open>sort.Sort\<close>. \<open>run_swaps\<close> performs a list of calls of
  \<^verbatim>\<open>Swap\<close>. \<open>strict_less_than\<close> is a comparer that is irreflexive and transitive and
  whose incomparability is transitive (a strict weak order, what \<^verbatim>\<open>sort.Interface\<close> asks
  of \<^verbatim>\<open>Less\<close>). \<open>sort_Sort_contract\<close>: on an \<open>orderData\<close> the call does not panic, it
  changes the data by calls of \<^verbatim>\<open>Swap\<close> only, and when the comparer is a strict less-than
  it leaves \<^verbatim>\<open>Less(i+1, i)\<close> false for every \<open>i\<close>.
\<close>

fun run_swaps :: "'d Interface \<Rightarrow> (nat \<times> nat) list \<Rightarrow> 'd \<Rightarrow> panic + 'd" where
  "run_swaps data [] d = Inr d"
| "run_swaps data ((i, j) # swaps) d =
     (case Swap data d i j of Inl p \<Rightarrow> Inl p | Inr d' \<Rightarrow> run_swaps data swaps d')"

definition strict_less_than :: "('a \<Rightarrow> 'a \<Rightarrow> bool) \<Rightarrow> bool" where
  "strict_less_than lt \<longleftrightarrow>
     (\<forall>a. \<not> lt a a) \<and> (\<forall>a b c. lt a b \<and> lt b c \<longrightarrow> lt a c)
     \<and> (\<forall>a b c. lt a c \<longrightarrow> lt a b \<or> lt b c)"

definition sort_Sort_contract ::
  "('a orderData Interface \<Rightarrow> 'a orderData \<Rightarrow> panic option \<times> 'a orderData) \<Rightarrow> bool" where
  "sort_Sort_contract sort_Sort \<longleftrightarrow>
     (\<forall>d. fst (sort_Sort orderData_Interface d) = None
        \<and> (\<exists>swaps. run_swaps orderData_Interface swaps d = Inr (snd (sort_Sort orderData_Interface d)))
        \<and> (strict_less_than (cmp d) \<longrightarrow>
             (\<forall>i. Suc i < orderData_Len (snd (sort_Sort orderData_Interface d)) \<longrightarrow>
                  orderData_Less (snd (sort_Sort orderData_Interface d)) (Suc i) i = Inr False)))"

text \<open>
  The contract can be met: \<open>insertionSort\<close> is an insertion sort written over the three
  methods of the interface,
  \<^verbatim>\<open>for i := 1; i < data.Len(); i++ { for j := i; j > 0 && data.Less(j, j-1); j-- { data.Swap(j, j-1) } }\<close>,
  and \<open>insertionSort_contract\<close> below proves that it satisfies \<open>sort_Sort_contract\<close>.
  \<open>swap_list\<close>, \<open>ins_list\<close> and \<open>isort_from\<close> are the same steps on plain lists.
\<close>

fun insertion_inner :: "'d Interface \<Rightarrow> nat \<Rightarrow> 'd \<Rightarrow> panic option \<times> 'd" where
  "insertion_inner data 0 d = (None, d)"
| "insertion_inner data (Suc j) d =
     (case Less data d (Suc j) j of
        Inl p \<Rightarrow> (Some p, d)
      | Inr lt \<Rightarrow>
          if lt then (case Swap data d (Suc j) j of
                        Inl p \<Rightarrow> (Some p, d)
                      | Inr d' \<Rightarrow> insertion_inner data j d')
          else (None, d))"

function insertion_outer :: "'d Interface \<Rightarrow> nat \<Rightarrow> nat \<Rightarrow> 'd \<Rightarrow> panic option \<times> 'd" where
  "insertion_outer data i b d =
     (if i < b then (case insertion_inner data i d of
                       (Some p, d') \<Rightarrow> (Some p, d')
                     | (None, d') \<Rightarrow> insertion_outer data (i + 1) b d')
      else (None, d))"
  by pat_completeness auto
termination
  by (relation "measure (\<lambda>(data, i, b, d). b - i)") auto

declare insertion_outer.simps [simp del]

definition insertionSort :: "'d Interface \<Rightarrow> 'd \<Rightarrow> panic option \<times> 'd" where
  "insertionSort data d = insertion_outer data 1 (Len data d) d"


definition swap_list :: "'a list \<Rightarrow> nat \<Rightarrow> nat \<Rightarrow> 'a list" where
  "swap_list xs ai bi = xs[ai := xs ! bi, bi := xs ! ai]"

lemma orderData_Swap_Some:
  "ai < length xs \<Longrightarrow> bi < length xs \<Longrightarrow>
   orderData_Swap \<lparr>cmp = c, items = Some xs\<rparr> ai bi = Inr \<lparr>cmp = c, items = Some (swap_list xs ai bi)\<rparr>"
  by (simp add: orderData_Swap_def slice_def swap_list_def)

lemma orderData_Less_Some:
  "ai < length xs \<Longrightarrow> bi < length xs \<Longrightarrow>
   orderData_Less \<lparr>cmp = c, items = Some xs\<rparr> ai bi = Inr (c (xs ! ai) (xs ! bi))"
  by (simp add: orderData_Less_def slice_def)

lemma length_swap_list [simp]: "length (swap_list xs i j) = length xs"
  by (simp add: swap_list_def)

lemma mset_swap_list: "i < length xs \<Longrightarrow> j < length xs \<Longrightarrow> mset (swap_list xs i j) = mset xs"
  unfolding swap_list_def by (metis mset_swap)

lemma run_swaps_orderData:
  assumes "run_swaps orderData_Interface swaps d = Inr d'"
  shows "cmp d' = cmp d \<and> (items d = None \<longrightarrow> items d' = None)
     \<and> (\<forall>xs. items d = Some xs \<longrightarrow> (\<exists>ys. items d' = Some ys \<and> mset ys = mset xs))"
  using assms
proof (induction swaps arbitrary: d)
  case Nil
  then show ?case by simp
next
  case (Cons sw swaps)
  obtain i j where sw: "sw = (i, j)" by (cases sw)
  from Cons.prems sw obtain d1 where
    s1: "orderData_Swap d i j = Inr d1" and rest: "run_swaps orderData_Interface swaps d1 = Inr d'"
    by (auto simp: orderData_Interface_def split: sum.splits)
  from s1 have rng: "i < length (slice (items d))" "j < length (slice (items d))"
    and d1: "d1 = d\<lparr>items := Some (swap_list (slice (items d)) i j)\<rparr>"
    by (auto simp: orderData_Swap_def swap_list_def split: if_splits)
  from rng have notNone: "items d \<noteq> None" by (cases "items d") (auto simp: slice_def)
  from Cons.IH [OF rest] have ih: "cmp d' = cmp d1"
    "\<And>xs. items d1 = Some xs \<Longrightarrow> \<exists>ys. items d' = Some ys \<and> mset ys = mset xs"
    by auto
  from ih(2) [of "swap_list (slice (items d)) i j"] d1
  obtain ys where ys: "items d' = Some ys" "mset ys = mset (swap_list (slice (items d)) i j)"
    by auto
  with rng have "mset ys = mset (slice (items d))" by (simp add: mset_swap_list)
  with ys ih(1) d1 notNone show ?case by (auto simp: slice_def)
qed


fun ins_list :: "('a \<Rightarrow> 'a \<Rightarrow> bool) \<Rightarrow> nat \<Rightarrow> 'a list \<Rightarrow> 'a list" where
  "ins_list c 0 xs = xs"
| "ins_list c (Suc j) xs =
     (if c (xs ! Suc j) (xs ! j) then ins_list c j (swap_list xs (Suc j) j) else xs)"

function isort_from :: "('a \<Rightarrow> 'a \<Rightarrow> bool) \<Rightarrow> nat \<Rightarrow> nat \<Rightarrow> 'a list \<Rightarrow> 'a list" where
  "isort_from c i b xs = (if i < b then isort_from c (i + 1) b (ins_list c i xs) else xs)"
  by pat_completeness auto
termination
  by (relation "measure (\<lambda>(c, i, b, xs). b - i)") auto

declare isort_from.simps [simp del]

lemma length_ins_list [simp]: "length (ins_list c j xs) = length xs"
  by (induction j arbitrary: xs) auto

lemma length_isort_from [simp]: "length (isort_from c i b xs) = length xs"
  by (induction c i b xs rule: isort_from.induct) (subst isort_from.simps, auto)

lemma run_swaps_append:
  "run_swaps data (s1 @ s2) d =
     (case run_swaps data s1 d of Inl p \<Rightarrow> Inl p | Inr d' \<Rightarrow> run_swaps data s2 d')"
  by (induction s1 arbitrary: d) (auto split: sum.splits)

lemma insertion_inner_orderData:
  assumes "j < length xs"
  shows "insertion_inner orderData_Interface j \<lparr>cmp = c, items = Some xs\<rparr>
           = (None, \<lparr>cmp = c, items = Some (ins_list c j xs)\<rparr>)
       \<and> (\<exists>swaps. run_swaps orderData_Interface swaps \<lparr>cmp = c, items = Some xs\<rparr>
                    = Inr \<lparr>cmp = c, items = Some (ins_list c j xs)\<rparr>)"
  using assms
proof (induction j arbitrary: xs)
  case 0
  have "run_swaps orderData_Interface [] \<lparr>cmp = c, items = Some xs\<rparr>
      = Inr \<lparr>cmp = c, items = Some (ins_list c 0 xs)\<rparr>" by simp
  then show ?case by (simp del: run_swaps.simps) blast
next
  case (Suc j)
  then have rng: "Suc j < length xs" "j < length xs" by simp_all
  show ?case
  proof (cases "c (xs ! Suc j) (xs ! j)")
    case False
    have "run_swaps orderData_Interface [] \<lparr>cmp = c, items = Some xs\<rparr>
      = Inr \<lparr>cmp = c, items = Some (ins_list c (Suc j) xs)\<rparr>" using False by simp
    moreover have "insertion_inner orderData_Interface (Suc j) \<lparr>cmp = c, items = Some xs\<rparr>
           = (None, \<lparr>cmp = c, items = Some (ins_list c (Suc j) xs)\<rparr>)"
      using False rng by (simp add: orderData_Interface_def orderData_Less_Some)
    ultimately show ?thesis by blast
  next
    case True
    let ?xs' = "swap_list xs (Suc j) j"
    from Suc.IH [of ?xs'] rng obtain swaps where
      ih1: "insertion_inner orderData_Interface j \<lparr>cmp = c, items = Some ?xs'\<rparr>
           = (None, \<lparr>cmp = c, items = Some (ins_list c j ?xs')\<rparr>)"
      and ih2: "run_swaps orderData_Interface swaps \<lparr>cmp = c, items = Some ?xs'\<rparr>
                    = Inr \<lparr>cmp = c, items = Some (ins_list c j ?xs')\<rparr>"
      by auto
    have a: "insertion_inner orderData_Interface (Suc j) \<lparr>cmp = c, items = Some xs\<rparr>
           = (None, \<lparr>cmp = c, items = Some (ins_list c (Suc j) xs)\<rparr>)"
      using True rng ih1
      by (simp add: orderData_Interface_def orderData_Less_Some orderData_Swap_Some)
    have b: "run_swaps orderData_Interface ((Suc j, j) # swaps) \<lparr>cmp = c, items = Some xs\<rparr>
                    = Inr \<lparr>cmp = c, items = Some (ins_list c (Suc j) xs)\<rparr>"
      using True rng ih2
      by (simp add: orderData_Interface_def orderData_Swap_Some)
    from a b show ?thesis by blast
  qed
qed

lemma insertion_outer_orderData:
  assumes "b \<le> length xs"
  shows "insertion_outer orderData_Interface i b \<lparr>cmp = c, items = Some xs\<rparr>
           = (None, \<lparr>cmp = c, items = Some (isort_from c i b xs)\<rparr>)
       \<and> (\<exists>swaps. run_swaps orderData_Interface swaps \<lparr>cmp = c, items = Some xs\<rparr>
                    = Inr \<lparr>cmp = c, items = Some (isort_from c i b xs)\<rparr>)"
  using assms
proof (induction c i b xs rule: isort_from.induct)
  case (1 c i b xs)
  show ?case
  proof (cases "i < b")
    case False
    have "run_swaps orderData_Interface [] \<lparr>cmp = c, items = Some xs\<rparr>
      = Inr \<lparr>cmp = c, items = Some (isort_from c i b xs)\<rparr>"
      using False by (subst isort_from.simps) simp
    moreover have "insertion_outer orderData_Interface i b \<lparr>cmp = c, items = Some xs\<rparr>
           = (None, \<lparr>cmp = c, items = Some (isort_from c i b xs)\<rparr>)"
      using False by (subst insertion_outer.simps, subst isort_from.simps) simp
    ultimately show ?thesis by blast
  next
    case True
    with "1.prems" have il: "i < length xs" by simp
    from insertion_inner_orderData [OF il, of c] obtain s1 where
      in1: "insertion_inner orderData_Interface i \<lparr>cmp = c, items = Some xs\<rparr>
           = (None, \<lparr>cmp = c, items = Some (ins_list c i xs)\<rparr>)"
      and in2: "run_swaps orderData_Interface s1 \<lparr>cmp = c, items = Some xs\<rparr>
                    = Inr \<lparr>cmp = c, items = Some (ins_list c i xs)\<rparr>"
      by blast
    from "1.IH" [OF True] "1.prems" obtain s2 where
      o1: "insertion_outer orderData_Interface (i + 1) b \<lparr>cmp = c, items = Some (ins_list c i xs)\<rparr>
           = (None, \<lparr>cmp = c, items = Some (isort_from c (i + 1) b (ins_list c i xs))\<rparr>)"
      and o2: "run_swaps orderData_Interface s2 \<lparr>cmp = c, items = Some (ins_list c i xs)\<rparr>
                    = Inr \<lparr>cmp = c, items = Some (isort_from c (i + 1) b (ins_list c i xs))\<rparr>"
      by auto
    have e: "isort_from c i b xs = isort_from c (i + 1) b (ins_list c i xs)"
      using True by (subst isort_from.simps) simp
    have a: "insertion_outer orderData_Interface i b \<lparr>cmp = c, items = Some xs\<rparr>
           = (None, \<lparr>cmp = c, items = Some (isort_from c i b xs)\<rparr>)"
      using True in1 o1 e by (subst insertion_outer.simps) simp
    have b: "run_swaps orderData_Interface (s1 @ s2) \<lparr>cmp = c, items = Some xs\<rparr>
                    = Inr \<lparr>cmp = c, items = Some (isort_from c i b xs)\<rparr>"
      using in2 o2 e by (simp add: run_swaps_append)
    from a b show ?thesis by blast
  qed
qed

definition pairs_ok :: "('a \<Rightarrow> 'a \<Rightarrow> bool) \<Rightarrow> 'a list \<Rightarrow> nat \<Rightarrow> nat \<Rightarrow> bool" where
  "pairs_ok c xs k j \<longleftrightarrow>
     (\<forall>i. Suc i \<le> k \<and> Suc i \<noteq> j \<longrightarrow> \<not> c (xs ! Suc i) (xs ! i))
     \<and> (0 < j \<and> j < k \<longrightarrow> \<not> c (xs ! Suc j) (xs ! (j - 1)))"

lemma nth_swap_list:
  "i < length xs \<Longrightarrow> j < length xs \<Longrightarrow>
   swap_list xs i j ! n = (if n = j then xs ! i else if n = i then xs ! j else xs ! n)"
  by (auto simp: swap_list_def nth_list_update)

lemma ins_list_sorted:
  assumes asym: "\<And>a b. c a b \<Longrightarrow> \<not> c b a"
    and "k < length xs" and "j \<le> k" and "pairs_ok c xs k j"
  shows "\<forall>i. Suc i \<le> k \<longrightarrow> \<not> c (ins_list c j xs ! Suc i) (ins_list c j xs ! i)"
  using assms(2-)
proof (induction j arbitrary: xs)
  case 0
  then show ?case by (auto simp: pairs_ok_def)
next
  case (Suc j)
  show ?case
  proof (cases "c (xs ! Suc j) (xs ! j)")
    case False
    with Suc.prems show ?thesis by (auto simp: pairs_ok_def)
  next
    case True
    let ?xs' = "swap_list xs (Suc j) j"
    from Suc.prems have rng: "Suc j < length xs" "j < length xs" by simp_all
    have ok: "pairs_ok c ?xs' k j"
      unfolding pairs_ok_def
    proof (intro conjI allI impI)
      fix i assume h: "Suc i \<le> k \<and> Suc i \<noteq> j"
      show "\<not> c (?xs' ! Suc i) (?xs' ! i)"
      proof -
        consider "i = j" | "i = Suc j" | "i \<noteq> j" "i \<noteq> Suc j" by blast
        then show ?thesis
        proof cases
          case 1
          with rng True asym show ?thesis by (simp add: nth_swap_list)
        next
          case 2
          with h Suc.prems rng show ?thesis
            by (auto simp: nth_swap_list pairs_ok_def)
        next
          case 3
          with h Suc.prems rng show ?thesis
            by (auto simp: nth_swap_list pairs_ok_def)
        qed
      qed
    next
      assume h: "0 < j \<and> j < k"
      then have "Suc (j - 1) = j" by simp
      moreover from Suc.prems h have "\<not> c (xs ! Suc (j - 1)) (xs ! (j - 1))"
        unfolding pairs_ok_def by (metis Suc_leI Suc_lessD calculation n_not_Suc_n order.strict_trans2)
      moreover from h have "j - 1 \<noteq> Suc j" "j - 1 \<noteq> j" by arith+
      ultimately show "\<not> c (?xs' ! Suc j) (?xs' ! (j - 1))"
        using rng h by (simp add: nth_swap_list)
    qed
    have "\<forall>i. Suc i \<le> k \<longrightarrow> \<not> c (ins_list c j ?xs' ! Suc i) (ins_list c j ?xs' ! i)"
      using Suc.prems by (intro Suc.IH ok) simp_all
    with True show ?thesis by simp
  qed
qed


lemma isort_from_sorted:
  assumes "\<forall>a b. c a b \<longrightarrow> \<not> c b a"
    and "b \<le> length xs" and "\<forall>i. Suc i < m \<longrightarrow> \<not> c (xs ! Suc i) (xs ! i)"
  shows "\<forall>i. Suc i < max m b \<longrightarrow> \<not> c (isort_from c m b xs ! Suc i) (isort_from c m b xs ! i)"
  using assms
proof (induction c m b xs rule: isort_from.induct)
  case (1 c m b xs)
  show ?case
  proof (cases "m < b")
    case False
    then have "isort_from c m b xs = xs" by (subst isort_from.simps) simp
    moreover from False have "max m b = m" by simp
    ultimately show ?thesis using "1.prems" by simp
  next
    case True
    have e: "isort_from c m b xs = isort_from c (m + 1) b (ins_list c m xs)"
      using True by (subst isort_from.simps) simp
    have ok: "pairs_ok c xs m m"
      using "1.prems"(3) by (auto simp: pairs_ok_def)
    from True "1.prems"(2) have ml: "m < length xs" by simp
    have asym: "\<And>a b. c a b \<Longrightarrow> \<not> c b a" using "1.prems"(1) by blast
    have "\<forall>i. Suc i \<le> m \<longrightarrow> \<not> c (ins_list c m xs ! Suc i) (ins_list c m xs ! i)"
      by (rule ins_list_sorted [OF asym ml _ ok]) simp_all
    then have pre: "\<forall>i. Suc i < m + 1 \<longrightarrow> \<not> c (ins_list c m xs ! Suc i) (ins_list c m xs ! i)"
      by (simp add: less_Suc_eq_le)
    have "\<forall>i. Suc i < max (m + 1) b \<longrightarrow>
        \<not> c (isort_from c (m + 1) b (ins_list c m xs) ! Suc i) (isort_from c (m + 1) b (ins_list c m xs) ! i)"
      using "1.prems"(1,2) pre by (intro "1.IH" True) simp_all
    moreover from True have "max (m + 1) b = max m b" by simp
    ultimately show ?thesis using e by simp
  qed
qed

lemma strict_less_than_asym: "strict_less_than c \<Longrightarrow> c a b \<Longrightarrow> \<not> c b a"
  unfolding strict_less_than_def by blast

lemma orderData_cases:
  obtains (nil) c where "d = \<lparr>cmp = c, items = None\<rparr>"
        | (slice) c xs where "d = \<lparr>cmp = c, items = Some xs\<rparr>"
  by (cases d; cases "items d") auto

lemma insertionSort_contract: "sort_Sort_contract insertionSort"
  unfolding sort_Sort_contract_def
proof (intro allI)
  fix d :: "'a orderData"
  let ?r = "insertionSort orderData_Interface d"
  show "fst ?r = None
        \<and> (\<exists>swaps. run_swaps orderData_Interface swaps d = Inr (snd ?r))
        \<and> (strict_less_than (cmp d) \<longrightarrow>
             (\<forall>i. Suc i < orderData_Len (snd ?r) \<longrightarrow> orderData_Less (snd ?r) (Suc i) i = Inr False))"
  proof (cases d rule: orderData_cases)
    case (nil c)
    have "insertion_outer orderData_Interface 1 0 d = (None, d)"
      by (subst insertion_outer.simps) simp
    with nil have r: "?r = (None, d)"
      by (simp add: insertionSort_def orderData_Interface_def orderData_Len_def slice_def)
    have "run_swaps orderData_Interface [] d = Inr d" by simp
    then have "\<exists>swaps. run_swaps orderData_Interface swaps d = Inr d" by blast
    with r nil show ?thesis by (simp add: orderData_Len_def slice_def)
  next
    case (slice c xs)
    let ?ys = "isort_from c 1 (length xs) xs"
    from insertion_outer_orderData [of "length xs" xs 1 c] obtain swaps where
      r: "insertion_outer orderData_Interface 1 (length xs) \<lparr>cmp = c, items = Some xs\<rparr>
           = (None, \<lparr>cmp = c, items = Some ?ys\<rparr>)"
      and sw: "run_swaps orderData_Interface swaps \<lparr>cmp = c, items = Some xs\<rparr>
                    = Inr \<lparr>cmp = c, items = Some ?ys\<rparr>"
      by auto
    have r': "?r = (None, \<lparr>cmp = c, items = Some ?ys\<rparr>)"
      using r slice by (simp add: insertionSort_def orderData_Interface_def orderData_Len_def slice_def)
    have sorted: "orderData_Less \<lparr>cmp = c, items = Some ?ys\<rparr> (Suc i) i = Inr False"
      if lt: "strict_less_than c" and i: "Suc i < length xs" for i
    proof -
      have "\<forall>i. Suc i < max 1 (length xs) \<longrightarrow> \<not> c (?ys ! Suc i) (?ys ! i)"
        by (rule isort_from_sorted) (use lt in \<open>auto dest: strict_less_than_asym\<close>)
      with i have "\<not> c (?ys ! Suc i) (?ys ! i)" by simp
      with i show ?thesis by (simp add: orderData_Less_Some)
    qed
    from sw slice r' have "\<exists>swaps. run_swaps orderData_Interface swaps d = Inr (snd ?r)"
      by auto
    with r' sorted slice show ?thesis
      by (simp add: orderData_Len_def slice_def)
  qed
qed

lemma OrderPD_ToSlice_st:
  assumes contract: "sort_Sort_contract sort_Sort"
    and lt: "strict_less_than c"
    and up: "up u = Some (Inr xs, u')"
  shows "\<exists>ys d'. ToSlice_st (OrderPD_func sort_Sort up False) (OrderPD_new g (Some c), u)
                   = Some (Inr ys, (d', u'))
           \<and> items d' = Some ys
           \<and> mset ys = mset xs
           \<and> (\<forall>i. Suc i < length ys \<longrightarrow> \<not> c (ys ! Suc i) (ys ! i))"
proof -
  let ?d0 = "OrderPD_new g (Some c)"
  let ?d1 = "?d0\<lparr>items := Some xs\<rparr>"
  obtain err d2 where r: "sort_Sort orderData_Interface ?d1 = (err, d2)"
    by (cases "sort_Sort orderData_Interface ?d1")
  from contract [unfolded sort_Sort_contract_def, rule_format, of ?d1] r
  obtain swaps where err: "err = None"
    and sw: "run_swaps orderData_Interface swaps ?d1 = Inr d2"
    and so: "strict_less_than (cmp ?d1) \<longrightarrow>
       (\<forall>i. Suc i < orderData_Len d2 \<longrightarrow> orderData_Less d2 (Suc i) i = Inr False)"
    by auto
  from run_swaps_orderData [OF sw] obtain ys where
    c2: "cmp d2 = c" and ys: "items d2 = Some ys" "mset ys = mset xs"
    by (auto simp: OrderPD_new_def)
  have sorted: "\<not> c (ys ! Suc i) (ys ! i)" if i: "Suc i < length ys" for i
  proof -
    from so lt have "\<forall>i. Suc i < orderData_Len d2 \<longrightarrow> orderData_Less d2 (Suc i) i = Inr False"
      by (simp add: OrderPD_new_def)
    with i ys have "orderData_Less d2 (Suc i) i = Inr False"
      by (simp add: orderData_Len_def slice_def)
    with i ys c2 show ?thesis
      by (simp add: orderData_Less_def slice_def)
  qed
  have first: "OrderPD_func sort_Sort up False (?d0, u) 0
      = Some (fst (replay ys 0), (d2, u'), snd (replay ys 0))"
    using OrderPD_first [of up u xs u' ?d0 sort_Sort False d2 0] up r err ys
    by (simp add: OrderPD_new_def slice_def)
  have "ToSlice_st (OrderPD_func sort_Sort up False) (?d0, u) = Some (Inr ys, (d2, u'))"
    by (rule ToSlice_st_first [where f = "OrderPD_func sort_Sort up False" and c = "(?d0, u)"
          and b = ys and c' = "(d2, u')"])
       (fact first, rule OrderPD_filled [OF ys(1)])
  with ys sorted show ?thesis by blast
qed

lemma counted_upstream_ToSlice: "ToSlice S = Inr xs \<Longrightarrow> counted_upstream S n = Some (Inr xs, Suc n)"
  by (simp add: counted_upstream_def)

lemma strict_less_than_int: "strict_less_than ((<) :: int \<Rightarrow> int \<Rightarrow> bool)"
  by (auto simp: strict_less_than_def)

text \<open>
  Claim C5. Let \<^verbatim>\<open>sort.Sort\<close> meet \<open>sort_Sort_contract\<close>, let \<open>lt_func\<close> be a strict
  less-than and let \<open>S\<close> be a sequence that \<open>ToSlice\<close> reads as \<open>xs\<close>. Then \<open>ToSlice\<close> of
  \<^verbatim>\<open>S.OrderPD(lt_func, false)\<close> returns a slice \<open>ys\<close>, having drained \<open>S\<close> once and left
  \<open>ys\<close> in \<^verbatim>\<open>d.items\<close>; \<open>ys\<close> has the same multiset of items as \<open>xs\<close>, and
  \<open>lt_func (ys ! (i + 1)) (ys ! i)\<close> is false for every two consecutive positions.
  Ordering the ordered sequence again (the upstream of the second \<^verbatim>\<open>OrderPD\<close> is
  \<open>ToSlice\<close> of the first) returns a slice \<open>zs\<close> with the same multiset as \<open>xs\<close> and the
  same property of consecutive items.
\<close>

theorem OrderPD_sorted_permutation:
  assumes contract: "sort_Sort_contract sort_Sort"
    and lt: "strict_less_than lt_func"
    and src: "ToSlice S = Inr xs"
  shows "\<exists>ys d'. ToSlice_st (OrderPD_func sort_Sort (counted_upstream S) False)
                    (OrderPD_new GenericLessThan (Some lt_func), 0)
                  = Some (Inr ys, (d', 1))
           \<and> items d' = Some ys
           \<and> mset ys = mset xs
           \<and> (\<forall>i. Suc i < length ys \<longrightarrow> \<not> lt_func (ys ! Suc i) (ys ! i))
           \<and> (\<exists>zs d''. ToSlice_st
                  (OrderPD_func sort_Sort
                     (ToSlice_st (OrderPD_func sort_Sort (counted_upstream S) False)) False)
                  (OrderPD_new GenericLessThan (Some lt_func),
                   (OrderPD_new GenericLessThan (Some lt_func), 0))
                = Some (Inr zs, (d'', (d', 1)))
               \<and> mset zs = mset xs
               \<and> (\<forall>i. Suc i < length zs \<longrightarrow> \<not> lt_func (zs ! Suc i) (zs ! i)))"
proof -
  let ?inner = "ToSlice_st (OrderPD_func sort_Sort (counted_upstream S) False)"
  let ?d0 = "OrderPD_new GenericLessThan (Some lt_func)"
  from OrderPD_ToSlice_st [where g = GenericLessThan and up = "counted_upstream S" and u = 0,
      OF contract lt counted_upstream_ToSlice [OF src, of 0]]
  obtain ys d' where
    one: "?inner (?d0, 0) = Some (Inr ys, (d', Suc 0))"
    and ys: "items d' = Some ys" "mset ys = mset xs"
      "\<forall>i. Suc i < length ys \<longrightarrow> \<not> lt_func (ys ! Suc i) (ys ! i)"
    by blast
  from OrderPD_ToSlice_st [where g = GenericLessThan and up = ?inner and u = "(?d0, 0)",
      OF contract lt one]
  obtain zs d'' where
    two: "ToSlice_st (OrderPD_func sort_Sort ?inner False) (?d0, (?d0, 0))
            = Some (Inr zs, (d'', (d', Suc 0)))"
    and zs: "mset zs = mset ys"
      "\<forall>i. Suc i < length zs \<longrightarrow> \<not> lt_func (zs ! Suc i) (zs ! i)"
    by blast
  from one ys two zs show ?thesis by simp
qed

theorem OrderPD_sorted_permutation_witness:
  "sort_Sort_contract (insertionSort :: int orderData Interface \<Rightarrow> _)
   \<and> strict_less_than ((<) :: int \<Rightarrow> int \<Rightarrow> bool)
   \<and> ToSlice (From [3, 1, 2 :: int]) = Inr [3, 1, 2]
   \<and> (\<exists>ys d'. ToSlice_st (OrderPD_func insertionSort (counted_upstream (From [3, 1, 2 :: int])) False)
                    (OrderPD_new (<) (Some (<)), 0)
                  = Some (Inr ys, (d', 1))
           \<and> mset ys = mset [3, 1, 2]
           \<and> (\<forall>i. Suc i < length ys \<longrightarrow> \<not> ys ! Suc i < ys ! i))
   \<and> map_option fst (ToSlice_st (OrderPD_func insertionSort (counted_upstream (From [3, 1, 2 :: int])) False)
                    (OrderPD_new (<) (Some (<)), 0))
       = Some (Inr [1, 2, 3])"
proof -
  have src: "ToSlice (From [3, 1, 2 :: int]) = Inr [3, 1, 2]"
    by (simp add: From_def ToSlice_array)
  from OrderPD_sorted_permutation [where GenericLessThan = "(<)", OF insertionSort_contract strict_less_than_int src]
  have ex: "\<exists>ys d'. ToSlice_st (OrderPD_func insertionSort (counted_upstream (From [3, 1, 2 :: int])) False)
                    (OrderPD_new (<) (Some (<)), 0)
                  = Some (Inr ys, (d', 1))
           \<and> mset ys = mset [3, 1, 2]
           \<and> (\<forall>i. Suc i < length ys \<longrightarrow> \<not> ys ! Suc i < ys ! i)"
    by blast
  have ev: "map_option fst (ToSlice_st (OrderPD_func insertionSort (counted_upstream (From [3, 1, 2 :: int])) False)
                    (OrderPD_new (<) (Some (<)), 0))
       = Some (Inr [1, 2, 3])"
    by code_simp
  show ?thesis
    by (intro conjI insertionSort_contract strict_less_than_int src ex ev)
qed

subsection \<open>C4: the buffer of Cache, Reverse and Order\<close>


record ('c, 'a) world =
  drains :: nat
  cells :: "'c list"
  indexes :: "nat list list"
  answers :: "(nat \<times> nat \<times> (panic + 'a option)) list"





definition answers_of :: "(nat \<times> nat \<times> 'r) list \<Rightarrow> nat \<Rightarrow> nat \<Rightarrow> 'r list" where
  "answers_of ans v k = map (\<lambda>x. snd (snd x)) (filter (\<lambda>x. fst x = v \<and> fst (snd x) = k) ans)"

definition called :: "(nat \<times> nat \<times> 'r) list \<Rightarrow> nat set" where
  "called ans = fst ` set ans"



lemma answers_of_Nil [simp]: "answers_of [] v k = []"
  by (simp add: answers_of_def)








lemma finite_called [simp]: "finite (called ans)"
  by (simp add: called_def)






















subsection \<open>C2: a negative thread count\<close>























end
